theory Spec2Isabelle
  imports Main "HOL-Library.Word"
begin

section \<open>The BlueZ shared queue (src/shared/queue.c)\<close>

text \<open>
  The queue is a singly linked list of heap nodes with a reference-counted header.
  Pointers are \<open>nat option\<close> (\<open>None\<close> is \<open>NULL\<close>); the heap is a pair of partial maps,
  one for \<open>struct queue_entry\<close> cells and one for \<open>struct queue\<close> headers, and \<open>free\<close>
  removes a cell from its map.  Reading or writing through a pointer whose cell is not
  allocated is undefined behaviour in C and is the error value \<open>InvalidAccess\<close> here.
  The two \<open>unsigned int\<close> counters and the \<open>int\<close> reference count are 32-bit words.

  Destructor and matcher callbacks belong to the caller: a destructor transforms the
  caller's world \<open>'w\<close>, a matcher is a pure test; neither touches queue memory.  The
  callback of \<open>queue_foreach\<close> may do anything to the memory, including failing and
  not returning, so it is a partial state transformer.

  \<open>new0\<close> is the allocator: the functions that allocate take its result as the argument
  \<open>alloc\<close> (\<open>None\<close> when allocation fails, otherwise the address of the new cell).
\<close>

subsection \<open>Memory\<close>

type_synonym ptr = "nat option"

datatype error = InvalidAccess | InvalidFree

text \<open>\<open>struct queue_entry\<close>; the field \<open>next\<close> is called \<open>nextp\<close>.\<close>

record queue_entry =
  data :: ptr
  nextp :: ptr

record queue =
  ref_count :: "32 word"
  head :: ptr
  tail :: ptr
  entries :: "32 word"

record 'w mem =
  nodes :: "nat \<rightharpoonup> queue_entry"
  queues :: "nat \<rightharpoonup> queue"
  world :: 'w

definition bindE :: "error + 'a \<Rightarrow> ('a \<Rightarrow> error + 'b) \<Rightarrow> error + 'b" where
  "bindE x f = (case x of Inl e \<Rightarrow> Inl e | Inr v \<Rightarrow> f v)"

definition get_node :: "'w mem \<Rightarrow> ptr \<Rightarrow> error + queue_entry" where
  "get_node m p =
     (case p of
        None \<Rightarrow> Inl InvalidAccess
      | Some a \<Rightarrow> (case nodes m a of None \<Rightarrow> Inl InvalidAccess | Some en \<Rightarrow> Inr en))"

definition put_node :: "'w mem \<Rightarrow> nat \<Rightarrow> queue_entry \<Rightarrow> 'w mem" where
  "put_node m a en = m\<lparr>nodes := (nodes m)(a \<mapsto> en)\<rparr>"

definition free_node :: "'w mem \<Rightarrow> ptr \<Rightarrow> error + 'w mem" where
  "free_node m p =
     (case p of
        None \<Rightarrow> Inr m
      | Some a \<Rightarrow>
          (case nodes m a of
             None \<Rightarrow> Inl InvalidFree
           | Some en \<Rightarrow> Inr (m\<lparr>nodes := (nodes m)(a := None)\<rparr>)))"

definition get_queue :: "'w mem \<Rightarrow> ptr \<Rightarrow> error + queue" where
  "get_queue m q =
     (case q of
        None \<Rightarrow> Inl InvalidAccess
      | Some a \<Rightarrow> (case queues m a of None \<Rightarrow> Inl InvalidAccess | Some qu \<Rightarrow> Inr qu))"

definition put_queue :: "'w mem \<Rightarrow> ptr \<Rightarrow> queue \<Rightarrow> 'w mem" where
  "put_queue m q qu = (case q of None \<Rightarrow> m | Some a \<Rightarrow> m\<lparr>queues := (queues m)(a \<mapsto> qu)\<rparr>)"

definition free_queue :: "'w mem \<Rightarrow> ptr \<Rightarrow> error + 'w mem" where
  "free_queue m q =
     (case q of
        None \<Rightarrow> Inr m
      | Some a \<Rightarrow>
          (case queues m a of
             None \<Rightarrow> Inl InvalidFree
           | Some qu \<Rightarrow> Inr (m\<lparr>queues := (queues m)(a := None)\<rparr>)))"

text \<open>Calling an optional destructor on a handle.\<close>

definition call_destroy :: "(ptr \<Rightarrow> 'w \<Rightarrow> 'w) option \<Rightarrow> ptr \<Rightarrow> 'w mem \<Rightarrow> 'w mem" where
  "call_destroy destroy d m =
     (case destroy of None \<Rightarrow> m | Some f \<Rightarrow> m\<lparr>world := f d (world m)\<rparr>)"

subsection \<open>Reference counting, creation, destruction\<close>

definition queue_ref :: "ptr \<Rightarrow> 'w mem \<Rightarrow> error + ptr \<times> 'w mem" where
  "queue_ref q m =
     (if q = None then Inr (None, m)
      else bindE (get_queue m q) (\<lambda>qu.
             Inr (q, put_queue m q (qu\<lparr>ref_count := ref_count qu + 1\<rparr>))))"

definition queue_unref :: "ptr \<Rightarrow> 'w mem \<Rightarrow> error + 'w mem" where
  "queue_unref q m =
     bindE (get_queue m q) (\<lambda>qu.
       let m1 = put_queue m q (qu\<lparr>ref_count := ref_count qu - 1\<rparr>)
       in if ref_count qu - 1 \<noteq> 0 then Inr m1 else free_queue m1 q)"

definition queue_new :: "ptr \<Rightarrow> 'w mem \<Rightarrow> error + ptr \<times> 'w mem" where
  "queue_new alloc m =
     (if alloc = None then Inr (None, m)
      else queue_ref alloc
             (put_queue m alloc \<lparr>ref_count = 0, head = None, tail = None, entries = 0\<rparr>))"

partial_function (option) queue_destroy_loop ::
  "(ptr \<Rightarrow> 'w \<Rightarrow> 'w) option \<Rightarrow> ptr \<Rightarrow> 'w mem \<Rightarrow> (error + 'w mem) option" where
  "queue_destroy_loop destroy entry m =
     (if entry = None then Some (Inr m)
      else (case get_node m entry of
              Inl er \<Rightarrow> Some (Inl er)
            | Inr tmp \<Rightarrow>
                (case free_node (call_destroy destroy (data tmp) m) entry of
                   Inl er \<Rightarrow> Some (Inl er)
                 | Inr m1 \<Rightarrow> queue_destroy_loop destroy (nextp tmp) m1)))"

definition queue_destroy ::
  "ptr \<Rightarrow> (ptr \<Rightarrow> 'w \<Rightarrow> 'w) option \<Rightarrow> 'w mem \<Rightarrow> (error + 'w mem) option" where
  "queue_destroy q destroy m =
     (if q = None then Some (Inr m)
      else (case get_queue m q of
              Inl er \<Rightarrow> Some (Inl er)
            | Inr qu \<Rightarrow>
                (case queue_destroy_loop destroy (head qu) m of
                   None \<Rightarrow> None
                 | Some (Inl er) \<Rightarrow> Some (Inl er)
                 | Some (Inr m1) \<Rightarrow> Some (queue_unref q m1))))"

subsection \<open>Insertion, removal at the head, peeking\<close>

definition queue_push_tail :: "ptr \<Rightarrow> ptr \<Rightarrow> ptr \<Rightarrow> 'w mem \<Rightarrow> error + bool \<times> 'w mem" where
  "queue_push_tail q dat alloc m =
     (if q = None then Inr (False, m)
      else case alloc of
        None \<Rightarrow> Inr (False, m)
      | Some e \<Rightarrow>
          let m1 = put_node m e \<lparr>data = dat, nextp = None\<rparr>
          in bindE (get_queue m1 q) (\<lambda>qu.
             bindE (case tail qu of
                      Some t \<Rightarrow> bindE (get_node m1 (Some t)) (\<lambda>te.
                                  Inr (put_node m1 t (te\<lparr>nextp := Some e\<rparr>)))
                    | None \<Rightarrow> Inr m1) (\<lambda>m2.
             let qu1 = qu\<lparr>tail := Some e\<rparr>;
                 qu2 = (if head qu1 = None then qu1\<lparr>head := Some e\<rparr> else qu1)
             in Inr (True, put_queue m2 q (qu2\<lparr>entries := entries qu2 + 1\<rparr>)))))"

definition queue_push_head :: "ptr \<Rightarrow> ptr \<Rightarrow> ptr \<Rightarrow> 'w mem \<Rightarrow> error + bool \<times> 'w mem" where
  "queue_push_head q dat alloc m =
     (if q = None then Inr (False, m)
      else case alloc of
        None \<Rightarrow> Inr (False, m)
      | Some e \<Rightarrow>
          bindE (get_queue m q) (\<lambda>qu.
            let m1 = put_node m e \<lparr>data = dat, nextp = head qu\<rparr>;
                qu1 = qu\<lparr>head := Some e\<rparr>;
                qu2 = (if tail qu1 = None then qu1\<lparr>tail := Some e\<rparr> else qu1)
            in Inr (True, put_queue m1 q (qu2\<lparr>entries := entries qu2 + 1\<rparr>))))"

definition queue_pop_head :: "ptr \<Rightarrow> 'w mem \<Rightarrow> error + ptr \<times> 'w mem" where
  "queue_pop_head q m =
     (if q = None then Inr (None, m)
      else bindE (get_queue m q) (\<lambda>qu.
        if head qu = None then Inr (None, m)
        else bindE (get_node m (head qu)) (\<lambda>en.
          let qu1 = (if nextp en = None then qu\<lparr>head := None, tail := None\<rparr>
                     else qu\<lparr>head := nextp en\<rparr>)
          in bindE (free_node m (head qu)) (\<lambda>m1.
               Inr (data en, put_queue m1 q (qu1\<lparr>entries := entries qu1 - 1\<rparr>))))))"

definition queue_peek_head :: "ptr \<Rightarrow> 'w mem \<Rightarrow> error + ptr" where
  "queue_peek_head q m =
     (if q = None then Inr None
      else bindE (get_queue m q) (\<lambda>qu.
        if head qu = None then Inr None
        else bindE (get_node m (head qu)) (\<lambda>en. Inr (data en))))"

definition queue_peek_tail :: "ptr \<Rightarrow> 'w mem \<Rightarrow> error + ptr" where
  "queue_peek_tail q m =
     (if q = None then Inr None
      else bindE (get_queue m q) (\<lambda>qu.
        if tail qu = None then Inr None
        else bindE (get_node m (tail qu)) (\<lambda>en. Inr (data en))))"

definition queue_length :: "ptr \<Rightarrow> 'w mem \<Rightarrow> error + 32 word" where
  "queue_length q m =
     (if q = None then Inr 0 else bindE (get_queue m q) (\<lambda>qu. Inr (entries qu)))"

definition queue_isempty :: "ptr \<Rightarrow> 'w mem \<Rightarrow> error + bool" where
  "queue_isempty q m =
     (if q = None then Inr True else bindE (get_queue m q) (\<lambda>qu. Inr (entries qu = 0)))"

subsection \<open>Iteration\<close>

partial_function (option) queue_find_entry_loop ::
  "ptr \<Rightarrow> ptr \<Rightarrow> 'w mem \<Rightarrow> (error + bool) option" where
  "queue_find_entry_loop entry dat m =
     (if entry = None then Some (Inr False)
      else if entry = dat then Some (Inr True)
      else (case get_node m entry of
              Inl er \<Rightarrow> Some (Inl er)
            | Inr en \<Rightarrow> queue_find_entry_loop (nextp en) dat m))"

definition queue_find_entry :: "ptr \<Rightarrow> ptr \<Rightarrow> 'w mem \<Rightarrow> (error + bool) option" where
  "queue_find_entry q dat m =
     (case get_queue m q of
        Inl er \<Rightarrow> Some (Inl er)
      | Inr qu \<Rightarrow> queue_find_entry_loop (head qu) dat m)"

type_synonym 'w queue_foreach_func = "ptr \<Rightarrow> ptr \<Rightarrow> 'w mem \<Rightarrow> (error + 'w mem) option"

partial_function (option) queue_foreach_loop ::
  "ptr \<Rightarrow> 'w queue_foreach_func \<Rightarrow> ptr \<Rightarrow> ptr \<Rightarrow> 'w mem \<Rightarrow> (error + 'w mem) option" where
  "queue_foreach_loop q function user_data entry m =
     (if entry = None then Some (Inr m)
      else (case get_queue m q of
              Inl er \<Rightarrow> Some (Inl er)
            | Inr qu \<Rightarrow>
                if \<not> 1 < sint (ref_count qu) then Some (Inr m)
                else (case get_node m entry of
                        Inl er \<Rightarrow> Some (Inl er)
                      | Inr tmp \<Rightarrow>
                          (case function (data tmp) user_data m of
                             None \<Rightarrow> None
                           | Some (Inl er) \<Rightarrow> Some (Inl er)
                           | Some (Inr m1) \<Rightarrow>
                               (case queue_find_entry q (nextp tmp) m1 of
                                  None \<Rightarrow> None
                                | Some (Inl er) \<Rightarrow> Some (Inl er)
                                | Some (Inr found) \<Rightarrow>
                                    if \<not> found then Some (Inr m1)
                                    else queue_foreach_loop q function user_data
                                           (nextp tmp) m1)))))"

definition queue_foreach ::
  "ptr \<Rightarrow> 'w queue_foreach_func option \<Rightarrow> ptr \<Rightarrow> 'w mem \<Rightarrow> (error + 'w mem) option" where
  "queue_foreach q function user_data m =
     (case function of
        None \<Rightarrow> Some (Inr m)
      | Some f \<Rightarrow>
          if q = None then Some (Inr m)
          else (case get_queue m q of
                  Inl er \<Rightarrow> Some (Inl er)
                | Inr qu \<Rightarrow>
                    if head qu = None then Some (Inr m)
                    else (case queue_ref q m of
                            Inl er \<Rightarrow> Some (Inl er)
                          | Inr (r, m1) \<Rightarrow>
                              (case queue_foreach_loop q f user_data (head qu) m1 of
                                 None \<Rightarrow> None
                               | Some (Inl er) \<Rightarrow> Some (Inl er)
                               | Some (Inr m2) \<Rightarrow> Some (queue_unref q m2)))))"

subsection \<open>Searching\<close>

type_synonym queue_match_func = "ptr \<Rightarrow> ptr \<Rightarrow> bool"

definition direct_match :: queue_match_func where
  "direct_match a b = (a = b)"

partial_function (option) queue_find_loop ::
  "queue_match_func \<Rightarrow> ptr \<Rightarrow> ptr \<Rightarrow> 'w mem \<Rightarrow> (error + ptr) option" where
  "queue_find_loop function match_data entry m =
     (if entry = None then Some (Inr None)
      else (case get_node m entry of
              Inl er \<Rightarrow> Some (Inl er)
            | Inr en \<Rightarrow>
                if function (data en) match_data then Some (Inr (data en))
                else queue_find_loop function match_data (nextp en) m))"

definition queue_find ::
  "ptr \<Rightarrow> queue_match_func option \<Rightarrow> ptr \<Rightarrow> 'w mem \<Rightarrow> (error + ptr) option" where
  "queue_find q function match_data m =
     (if q = None \<or> function = None then Some (Inr None)
      else let function1 = (case function of None \<Rightarrow> direct_match | Some f \<Rightarrow> f)
           in (case get_queue m q of
                 Inl er \<Rightarrow> Some (Inl er)
               | Inr qu \<Rightarrow> queue_find_loop function1 match_data (head qu) m))"

subsection \<open>Removal by handle and by predicate\<close>

text \<open>
  The unlinking statements shared by \<open>queue_remove\<close>, \<open>queue_remove_if\<close> and
  \<open>queue_remove_all\<close>: the predecessor's link (or the head) skips the entry, and the
  tail moves back when the entry was the last one.
\<close>

definition unlink_entry :: "ptr \<Rightarrow> ptr \<Rightarrow> ptr \<Rightarrow> 'w mem \<Rightarrow> error + 'w mem" where
  "unlink_entry q prev entry m =
     bindE (get_node m entry) (\<lambda>en.
     bindE (case prev of
              Some p \<Rightarrow> bindE (get_node m prev) (\<lambda>pe.
                          Inr (put_node m p (pe\<lparr>nextp := nextp en\<rparr>)))
            | None \<Rightarrow> bindE (get_queue m q) (\<lambda>qu.
                        Inr (put_queue m q (qu\<lparr>head := nextp en\<rparr>)))) (\<lambda>m1.
     bindE (get_node m1 entry) (\<lambda>en1.
       if nextp en1 = None
       then bindE (get_queue m1 q) (\<lambda>qu. Inr (put_queue m1 q (qu\<lparr>tail := prev\<rparr>)))
       else Inr m1)))"

definition dec_entries :: "ptr \<Rightarrow> 32 word \<Rightarrow> 'w mem \<Rightarrow> error + 'w mem" where
  "dec_entries q n m =
     bindE (get_queue m q) (\<lambda>qu. Inr (put_queue m q (qu\<lparr>entries := entries qu - n\<rparr>)))"

partial_function (option) queue_remove_loop ::
  "ptr \<Rightarrow> ptr \<Rightarrow> ptr \<Rightarrow> ptr \<Rightarrow> 'w mem \<Rightarrow> (error + bool \<times> 'w mem) option" where
  "queue_remove_loop q dat entry prev m =
     (if entry = None then Some (Inr (False, m))
      else (case get_node m entry of
              Inl er \<Rightarrow> Some (Inl er)
            | Inr en \<Rightarrow>
                if data en \<noteq> dat then queue_remove_loop q dat (nextp en) entry m
                else Some (bindE (unlink_entry q prev entry m) (\<lambda>m1.
                           bindE (free_node m1 entry) (\<lambda>m2.
                           bindE (dec_entries q 1 m2) (\<lambda>m3. Inr (True, m3)))))))"

definition queue_remove :: "ptr \<Rightarrow> ptr \<Rightarrow> 'w mem \<Rightarrow> (error + bool \<times> 'w mem) option" where
  "queue_remove q dat m =
     (if q = None \<or> dat = None then Some (Inr (False, m))
      else (case get_queue m q of
              Inl er \<Rightarrow> Some (Inl er)
            | Inr qu \<Rightarrow> queue_remove_loop q dat (head qu) None m))"

partial_function (option) queue_remove_if_loop ::
  "ptr \<Rightarrow> queue_match_func \<Rightarrow> ptr \<Rightarrow> ptr \<Rightarrow> ptr \<Rightarrow> 'w mem
     \<Rightarrow> (error + ptr \<times> 'w mem) option" where
  "queue_remove_if_loop q function user_data entry prev m =
     (if entry = None then Some (Inr (None, m))
      else (case get_node m entry of
              Inl er \<Rightarrow> Some (Inl er)
            | Inr en \<Rightarrow>
                if function (data en) user_data
                then Some (bindE (unlink_entry q prev entry m) (\<lambda>m1.
                           bindE (get_node m1 entry) (\<lambda>en1.
                           bindE (free_node m1 entry) (\<lambda>m2.
                           bindE (dec_entries q 1 m2) (\<lambda>m3. Inr (data en1, m3))))))
                else queue_remove_if_loop q function user_data (nextp en) entry m))"

definition queue_remove_if ::
  "ptr \<Rightarrow> queue_match_func option \<Rightarrow> ptr \<Rightarrow> 'w mem \<Rightarrow> (error + ptr \<times> 'w mem) option" where
  "queue_remove_if q function user_data m =
     (case function of
        None \<Rightarrow> Some (Inr (None, m))
      | Some f \<Rightarrow>
          if q = None then Some (Inr (None, m))
          else (case get_queue m q of
                  Inl er \<Rightarrow> Some (Inl er)
                | Inr qu \<Rightarrow> queue_remove_if_loop q f user_data (head qu) None m))"

subsection \<open>Bulk removal\<close>

text \<open>The loop of the branch with a predicate (lines 330 to 353).\<close>

partial_function (option) queue_remove_all_match_loop ::
  "ptr \<Rightarrow> queue_match_func \<Rightarrow> ptr \<Rightarrow> (ptr \<Rightarrow> 'w \<Rightarrow> 'w) option \<Rightarrow> ptr \<Rightarrow> ptr \<Rightarrow> 32 word
     \<Rightarrow> 'w mem \<Rightarrow> (error + 32 word \<times> 'w mem) option" where
  "queue_remove_all_match_loop q function user_data destroy entry prev count m =
     (if entry = None then Some (Inr (count, m))
      else (case get_node m entry of
              Inl er \<Rightarrow> Some (Inl er)
            | Inr en \<Rightarrow>
                if function (data en) user_data
                then (case bindE (unlink_entry q prev entry m) (\<lambda>m1.
                           bindE (get_node m1 entry) (\<lambda>tmp.
                           bindE (free_node (call_destroy destroy (data tmp) m1) entry)
                             (\<lambda>m2. Inr (nextp tmp, m2)))) of
                        Inl er \<Rightarrow> Some (Inl er)
                      | Inr (entry1, m2) \<Rightarrow>
                          queue_remove_all_match_loop q function user_data destroy
                            entry1 prev (count + 1) m2)
                else queue_remove_all_match_loop q function user_data destroy
                       (nextp en) entry count m))"

text \<open>The loop of the branch without a predicate (lines 357 to 367).\<close>

partial_function (option) queue_remove_all_clear_loop ::
  "(ptr \<Rightarrow> 'w \<Rightarrow> 'w) option \<Rightarrow> ptr \<Rightarrow> 32 word \<Rightarrow> 'w mem
     \<Rightarrow> (error + 32 word \<times> 'w mem) option" where
  "queue_remove_all_clear_loop destroy entry count m =
     (if entry = None then Some (Inr (count, m))
      else (case get_node m entry of
              Inl er \<Rightarrow> Some (Inl er)
            | Inr tmp \<Rightarrow>
                (case free_node (call_destroy destroy (data tmp) m) entry of
                   Inl er \<Rightarrow> Some (Inl er)
                 | Inr m1 \<Rightarrow>
                     queue_remove_all_clear_loop destroy (nextp tmp) (count + 1) m1)))"

definition queue_remove_all ::
  "ptr \<Rightarrow> queue_match_func option \<Rightarrow> ptr \<Rightarrow> (ptr \<Rightarrow> 'w \<Rightarrow> 'w) option \<Rightarrow> 'w mem
     \<Rightarrow> (error + 32 word \<times> 'w mem) option" where
  "queue_remove_all q function user_data destroy m =
     (if q = None then Some (Inr (0, m))
      else (case get_queue m q of
              Inl er \<Rightarrow> Some (Inl er)
            | Inr qu \<Rightarrow>
                (case function of
                   Some f \<Rightarrow>
                     (case queue_remove_all_match_loop q f user_data destroy
                             (head qu) None 0 m of
                        None \<Rightarrow> None
                      | Some (Inl er) \<Rightarrow> Some (Inl er)
                      | Some (Inr (count, m1)) \<Rightarrow>
                          Some (bindE (dec_entries q count m1) (\<lambda>m2. Inr (count, m2))))
                 | None \<Rightarrow>
                     (case queue_remove_all_clear_loop destroy (head qu) 0 m of
                        None \<Rightarrow> None
                      | Some (Inl er) \<Rightarrow> Some (Inl er)
                      | Some (Inr (count, m1)) \<Rightarrow>
                          Some (bindE (get_queue m1 q) (\<lambda>qu1.
                            Inr (count, put_queue m1 q
                                   (qu1\<lparr>head := None, tail := None, entries := 0\<rparr>))))))))"

subsection \<open>The shape of a queue in memory\<close>

text \<open>
  \<open>path h p ns z\<close>: following the \<open>next\<close> links from \<open>p\<close> visits exactly the cells
  \<open>ns\<close> (address and stored handle of each, in order) and arrives at \<open>z\<close>.
\<close>

primrec path :: "(nat \<rightharpoonup> queue_entry) \<Rightarrow> ptr \<Rightarrow> (nat \<times> ptr) list \<Rightarrow> ptr \<Rightarrow> bool" where
  "path h p [] z = (p = z)"
| "path h p (n # ns) z =
     (p = Some (fst n) \<and>
      (case h (fst n) of
         None \<Rightarrow> False
       | Some en \<Rightarrow> data en = snd n \<and> path h (nextp en) ns z))"

definition last_ptr :: "(nat \<times> ptr) list \<Rightarrow> ptr" where
  "last_ptr ns = (if ns = [] then None else Some (fst (last ns)))"

text \<open>
  \<open>linked m q ns\<close>: the header \<open>q\<close> is allocated, the walk from its head visits \<open>ns\<close>
  and ends at \<open>NULL\<close>, and its tail is the last cell of the walk (absent when there is
  none).  \<open>queue_inv\<close> adds that \<open>entries\<close> is the number of cells.
\<close>

definition linked :: "'w mem \<Rightarrow> ptr \<Rightarrow> (nat \<times> ptr) list \<Rightarrow> bool" where
  "linked m q ns =
     (case get_queue m q of
        Inl er \<Rightarrow> False
      | Inr qu \<Rightarrow> path (nodes m) (head qu) ns None \<and> tail qu = last_ptr ns)"

definition queue_inv :: "'w mem \<Rightarrow> ptr \<Rightarrow> (nat \<times> ptr) list \<Rightarrow> bool" where
  "queue_inv m q ns =
     (linked m q ns \<and>
      (case get_queue m q of Inl er \<Rightarrow> False | Inr qu \<Rightarrow> unat (entries qu) = length ns))"

text \<open>
  The header is held by at least one owner and its reference count can still grow: as a
  C \<open>int\<close> it lies between 1 and \<open>INT_MAX - 1\<close>.
\<close>

definition ref_held :: "'w mem \<Rightarrow> ptr \<Rightarrow> bool" where
  "ref_held m q =
     (case get_queue m q of
        Inl er \<Rightarrow> False
      | Inr qu \<Rightarrow> 0 < sint (ref_count qu) \<and> sint (ref_count qu) < 2147483647)"

text \<open>The effect on the caller's world of destroying the handles \<open>hs\<close> in order.\<close>

definition destroy_each :: "(ptr \<Rightarrow> 'w \<Rightarrow> 'w) option \<Rightarrow> ptr list \<Rightarrow> 'w \<Rightarrow> 'w" where
  "destroy_each destroy hs w =
     (case destroy of None \<Rightarrow> w | Some f \<Rightarrow> foldl (\<lambda>w h. f h w) w hs)"

text \<open>The pointer to the first cell of a list of cells.\<close>

definition first_ptr :: "(nat \<times> ptr) list \<Rightarrow> ptr" where
  "first_ptr ns = (case ns of [] \<Rightarrow> None | n # ns' \<Rightarrow> Some (fst n))"

text \<open>A list without its first element that satisfies \<open>P\<close>.\<close>

fun del_first :: "('a \<Rightarrow> bool) \<Rightarrow> 'a list \<Rightarrow> 'a list" where
  "del_first P [] = []"
| "del_first P (x # xs) = (if P x then xs else x # del_first P xs)"

subsection \<open>Callbacks that re-enter the queue\<close>


definition destroy_when :: "ptr \<Rightarrow> ptr \<Rightarrow> ptr list queue_foreach_func" where
  "destroy_when q b dat user_data m =
     (let m0 = m\<lparr>world := world m @ [dat]\<rparr>
      in if dat = b then queue_destroy q None m0 else Some (Inr m0))"

subsection \<open>Sequences of pushes and pops\<close>

text \<open>
  An operation carries its arguments: the handle pushed and the result of the allocation.
  \<open>apply_op\<close> runs one operation and reports whether it was a successful push (the
  function returned true) and whether it was a pop of a queue that had a cell;
  \<open>run_ops\<close> runs a sequence and adds these up.  \<open>allocs_fresh\<close> says that every
  address the allocator hands out along the run is free at that moment.
\<close>

datatype queue_op = Push_head ptr ptr | Push_tail ptr ptr | Pop_head

definition has_cell :: "'w mem \<Rightarrow> ptr \<Rightarrow> bool" where
  "has_cell m q = (case get_queue m q of Inl er \<Rightarrow> False | Inr qu \<Rightarrow> head qu \<noteq> None)"

fun apply_op :: "ptr \<Rightarrow> queue_op \<Rightarrow> 'w mem \<Rightarrow> error + (nat \<times> nat) \<times> 'w mem" where
  "apply_op q (Push_head dat alloc) m =
     bindE (queue_push_head q dat alloc m) (\<lambda>(ok, m1). Inr ((if ok then 1 else 0, 0), m1))"
| "apply_op q (Push_tail dat alloc) m =
     bindE (queue_push_tail q dat alloc m) (\<lambda>(ok, m1). Inr ((if ok then 1 else 0, 0), m1))"
| "apply_op q Pop_head m =
     bindE (queue_pop_head q m) (\<lambda>(r, m1). Inr ((0, if has_cell m q then 1 else 0), m1))"

fun run_ops :: "ptr \<Rightarrow> queue_op list \<Rightarrow> 'w mem \<Rightarrow> error + (nat \<times> nat) \<times> 'w mem" where
  "run_ops q [] m = Inr ((0, 0), m)"
| "run_ops q (x # xs) m =
     bindE (apply_op q x m) (\<lambda>((pushes, pops), m1).
     bindE (run_ops q xs m1) (\<lambda>((pushes1, pops1), m2).
       Inr ((pushes + pushes1, pops + pops1), m2)))"

fun op_alloc :: "queue_op \<Rightarrow> ptr" where
  "op_alloc (Push_head dat alloc) = alloc"
| "op_alloc (Push_tail dat alloc) = alloc"
| "op_alloc Pop_head = None"

fun allocs_fresh :: "ptr \<Rightarrow> queue_op list \<Rightarrow> 'w mem \<Rightarrow> bool" where
  "allocs_fresh q [] m = True"
| "allocs_fresh q (x # xs) m =
     ((case op_alloc x of None \<Rightarrow> True | Some e \<Rightarrow> nodes m e = None) \<and>
      (case apply_op q x m of Inl er \<Rightarrow> True | Inr (c, m1) \<Rightarrow> allocs_fresh q xs m1))"

text \<open>
  An empty memory, the memory after \<open>queue_new\<close> on it, and \<open>2 ^ 32\<close> pushes of the
  null handle at the tail, with the fresh addresses \<open>0\<close> to \<open>2 ^ 32 - 1\<close>.
\<close>

definition empty_mem :: "unit mem" where
  "empty_mem = \<lparr>nodes = Map.empty, queues = Map.empty, world = ()\<rparr>"

definition new_mem :: "unit mem" where
  "new_mem = \<lparr>nodes = Map.empty,
               queues = [0 \<mapsto> \<lparr>ref_count = 1, head = None, tail = None, entries = 0\<rparr>],
               world = ()\<rparr>"

definition push_null_at :: "nat \<Rightarrow> queue_op" where
  "push_null_at a = Push_tail None (Some a)"

definition many_pushes :: "queue_op list" where
  "many_pushes = map push_null_at [0..<4294967296]"

text \<open>The memory these pushes leave: a queue of \<open>2 ^ 32\<close> cells built by public calls.\<close>

definition wrapped_mem :: "unit mem" where
  "wrapped_mem = snd (projr (run_ops (Some 0) many_pushes new_mem))"

subsection \<open>Queues and callbacks for concrete checks\<close>

text \<open>
  Three cells at the addresses 10, 11, 12 holding the handles 1, 2, 3, with the header at
  address 1; the caller's world is the log of the handles its callbacks were given.
\<close>

definition mem3 :: "ptr list mem" where
  "mem3 = \<lparr>nodes = [10 \<mapsto> \<lparr>data = Some 1, nextp = Some 11\<rparr>,
                     11 \<mapsto> \<lparr>data = Some 2, nextp = Some 12\<rparr>,
                     12 \<mapsto> \<lparr>data = Some 3, nextp = None\<rparr>],
            queues = [1 \<mapsto> \<lparr>ref_count = 1, head = Some 10, tail = Some 12, entries = 3\<rparr>],
            world = []\<rparr>"

text \<open>
  Four cells A, B, C, D at the addresses 10 to 13 holding the handles 1 to 4, with the
  header at address 1 and one owner.
\<close>

definition mem4 :: "ptr list mem" where
  "mem4 = \<lparr>nodes = [10 \<mapsto> \<lparr>data = Some 1, nextp = Some 11\<rparr>,
                     11 \<mapsto> \<lparr>data = Some 2, nextp = Some 12\<rparr>,
                     12 \<mapsto> \<lparr>data = Some 3, nextp = Some 13\<rparr>,
                     13 \<mapsto> \<lparr>data = Some 4, nextp = None\<rparr>],
            queues = [1 \<mapsto> \<lparr>ref_count = 1, head = Some 10, tail = Some 13, entries = 4\<rparr>],
            world = []\<rparr>"

text \<open>
  A queue of \<open>n\<close> cells at the addresses \<open>0\<close> to \<open>n - 1\<close>, each holding the null
  handle and linked to the next address; \<open>big_mem\<close> is such a queue with
  \<open>UINT_MAX = 4294967295\<close> cells, its header at address 0.
\<close>

definition chain_nodes :: "nat \<Rightarrow> nat \<rightharpoonup> queue_entry" where
  "chain_nodes n a =
     (if a < n then Some \<lparr>data = None, nextp = (if Suc a < n then Some (Suc a) else None)\<rparr>
      else None)"

definition null_cell :: "nat \<Rightarrow> nat \<times> ptr" where
  "null_cell a = (a, None)"

definition big_mem :: "unit mem" where
  "big_mem = \<lparr>nodes = chain_nodes 4294967295,
               queues = [0 \<mapsto> \<lparr>ref_count = 1, head = Some 0, tail = Some 4294967294,
                                entries = 4294967295\<rparr>],
               world = ()\<rparr>"

text \<open>The first structural invariant of the specification, on its own.\<close>

definition empty_iff_no_ends :: "'w mem \<Rightarrow> ptr \<Rightarrow> bool" where
  "empty_iff_no_ends m q =
     (case get_queue m q of
        Inl er \<Rightarrow> False
      | Inr qu \<Rightarrow> (entries qu = 0) = (head qu = None \<and> tail qu = None))"

text \<open>A destructor that logs its handle, and two matchers.\<close>

definition log_handle :: "ptr \<Rightarrow> ptr list \<Rightarrow> ptr list" where
  "log_handle h w = w @ [h]"

definition even_handle :: queue_match_func where
  "even_handle h u = (case h of None \<Rightarrow> False | Some v \<Rightarrow> even v)"

definition any_handle :: queue_match_func where
  "any_handle h u = True"

section \<open>Properties\<close>

subsection \<open>Memory access\<close>

lemma bindE_simps [simp]: "bindE (Inl e) f = Inl e" "bindE (Inr v) f = f v"
  by (simp_all add: bindE_def)

lemma get_node_simps [simp]:
  "get_node m None = Inl InvalidAccess"
  "nodes m a = Some en \<Longrightarrow> get_node m (Some a) = Inr en"
  "nodes m a = None \<Longrightarrow> get_node m (Some a) = Inl InvalidAccess"
  by (simp_all add: get_node_def)

lemma get_queue_simps [simp]:
  "get_queue m None = Inl InvalidAccess"
  "queues m a = Some qu \<Longrightarrow> get_queue m (Some a) = Inr qu"
  "queues m a = None \<Longrightarrow> get_queue m (Some a) = Inl InvalidAccess"
  by (simp_all add: get_queue_def)

lemma get_queue_Inr: "get_queue m q = Inr qu \<longleftrightarrow> (\<exists>a. q = Some a \<and> queues m a = Some qu)"
  by (auto simp: get_queue_def split: option.splits)

lemma get_node_Inr: "get_node m p = Inr en \<longleftrightarrow> (\<exists>a. p = Some a \<and> nodes m a = Some en)"
  by (auto simp: get_node_def split: option.splits)

subsection \<open>Paths\<close>

lemma path_append: "path h p (as @ bs) z \<longleftrightarrow> (\<exists>y. path h p as y \<and> path h y bs z)"
  by (induction as arbitrary: p) (auto split: option.splits)

lemma path_unique: "path h p as None \<Longrightarrow> path h p bs None \<Longrightarrow> as = bs"
proof (induction as arbitrary: p bs)
  case Nil
  then show ?case by (cases bs) auto
next
  case (Cons a as)
  then show ?case by (cases bs) (auto split: option.splits simp: prod_eq_iff)
qed

lemma path_head_notin:
  assumes "path h p (n # ns) None"
  shows "fst n \<notin> fst ` set ns"
proof
  assume "fst n \<in> fst ` set ns"
  then obtain k where k: "k \<in> set ns" "fst k = fst n" by auto
  then obtain as bs where ns: "ns = as @ k # bs" by (auto simp: in_set_conv_decomp)
  from assms have "path h p ((n # as) @ k # bs) None" by (simp add: ns)
  then obtain y where "path h y (k # bs) None" unfolding path_append by blast
  with k have "path h p (k # bs) None" using assms by (auto split: option.splits)
  from path_unique[OF assms this] show False by (simp add: ns)
qed

lemma path_distinct: "path h p ns None \<Longrightarrow> distinct (map fst ns)"
proof (induction ns arbitrary: p)
  case Nil
  then show ?case by simp
next
  case (Cons n ns)
  from path_head_notin[OF Cons.prems] Cons show ?case by (auto split: option.splits)
qed

lemma path_upd_notin:
  "a \<notin> fst ` set ns \<Longrightarrow> path (h(a := v)) p ns z = path h p ns z"
  by (induction ns arbitrary: p) (auto split: option.splits)

lemma path_dom: "path h p ns z \<Longrightarrow> fst ` set ns \<subseteq> dom h"
  by (induction ns arbitrary: p) (auto split: option.splits)

subsection \<open>Counters\<close>

lemma unat_of_nat_le32: "k \<le> unat (w :: 32 word) \<Longrightarrow> unat (of_nat k :: 32 word) = k"
proof -
  assume "k \<le> unat w"
  moreover have "unat w < 2 ^ 32" using unsigned_less[of w] by simp
  ultimately have "k < 2 ^ 32" by simp
  then show ?thesis by (simp add: unat_of_nat)
qed

lemma unat_sub_of_nat32:
  "k \<le> unat (w :: 32 word) \<Longrightarrow> unat (w - of_nat k) = unat w - k"
proof -
  assume k: "k \<le> unat w"
  then have "(of_nat k :: 32 word) \<le> w"
    by (simp add: word_le_nat_alt unat_of_nat_le32)
  then have "unat (w - of_nat k) = unat w - unat (of_nat k :: 32 word)"
    by (rule unat_sub)
  then show ?thesis using k by (simp add: unat_of_nat_le32)
qed

lemma length_filter_split:
  "length ns = length (filter P ns) + length (filter (\<lambda>n. \<not> P n) ns)"
  by (induction ns) auto

subsection \<open>Updates of the memory\<close>

lemma put_node_simps [simp]:
  "nodes (put_node m a en) = (nodes m)(a \<mapsto> en)"
  "queues (put_node m a en) = queues m"
  "world (put_node m a en) = world m"
  by (simp_all add: put_node_def)

lemma put_queue_simps [simp]:
  "nodes (put_queue m q qu) = nodes m"
  "queues (put_queue m (Some a) qu) = (queues m)(a \<mapsto> qu)"
  "world (put_queue m q qu) = world m"
  by (simp_all add: put_queue_def split: option.splits)

lemma call_destroy_simps [simp]:
  "nodes (call_destroy d h m) = nodes m"
  "queues (call_destroy d h m) = queues m"
  "world (call_destroy d h m) = destroy_each d [h] (world m)"
  by (simp_all add: call_destroy_def destroy_each_def split: option.splits)

lemma destroy_each_Cons: "destroy_each d (h # hs) w = destroy_each d hs (destroy_each d [h] w)"
  by (simp add: destroy_each_def split: option.splits)

lemma destroy_each_Nil [simp]: "destroy_each d [] w = w"
  by (simp add: destroy_each_def split: option.splits)

lemma free_node_live:
  "nodes m a = Some en \<Longrightarrow> free_node m (Some a) = Inr (m\<lparr>nodes := (nodes m)(a := None)\<rparr>)"
  by (simp add: free_node_def)

lemma restrict_drop: "(h(a := None)) |` (- S) = h |` (- insert a S)"
  by (auto simp: restrict_map_def fun_eq_iff)

lemma restrict_drop_if: "(\<lambda>x. if x = a then None else h x) |` (- S) = h |` (- insert a S)"
  by (auto simp: restrict_map_def fun_eq_iff)

subsection \<open>Clearing a queue\<close>

lemma clear_loop:
  "path (nodes m) entry ns None \<Longrightarrow>
   queue_remove_all_clear_loop d entry c m =
     Some (Inr (c + of_nat (length ns),
                m\<lparr>nodes := nodes m |` (- fst ` set ns),
                  world := destroy_each d (map snd ns) (world m)\<rparr>))"
proof (induction ns arbitrary: entry c m)
  case Nil
  then show ?case
    by (subst queue_remove_all_clear_loop.simps) (simp add: restrict_map_def)
next
  case (Cons n ns)
  then obtain en where en: "entry = Some (fst n)" "nodes m (fst n) = Some en"
    "data en = snd n" "path (nodes m) (nextp en) ns None"
    by (auto split: option.splits)
  have notin: "fst n \<notin> fst ` set ns" using path_head_notin[OF Cons.prems] .
  let ?m1 = "(call_destroy d (snd n) m)\<lparr>nodes := (nodes m)(fst n := None)\<rparr>"
  have p1: "path (nodes ?m1) (nextp en) ns None"
    using en notin by (simp add: path_upd_notin)
  show ?case
    apply (subst queue_remove_all_clear_loop.simps)
    apply (simp add: en free_node_live Cons.IH[OF p1] restrict_drop)
    apply (simp add: destroy_each_Cons[of d "snd n" "map snd ns"] call_destroy_def
        destroy_each_def restrict_drop_if split: option.splits)
    done
qed

subsection \<open>Unlinking one cell\<close>

lemma path_Nil_start [simp]: "path h None ns z \<longleftrightarrow> ns = [] \<and> z = None"
  by (cases ns) auto

lemma path_first: "path h p ns None \<Longrightarrow> p = first_ptr ns"
  by (cases ns) (auto simp: first_ptr_def)

lemma first_ptr_simps [simp]:
  "first_ptr [] = None"
  "first_ptr (n # ns) = Some (fst n)"
  by (simp_all add: first_ptr_def)

lemma last_ptr_simps [simp]:
  "last_ptr [] = None"
  "last_ptr (ns @ [k]) = Some (fst k)"
  "ns \<noteq> [] \<Longrightarrow> last_ptr (n # ns) = last_ptr ns"
  "ns \<noteq> [] \<Longrightarrow> last_ptr (ms @ ns) = last_ptr ns"
  "last_ptr [k] = Some (fst k)"
  by (simp_all add: last_ptr_def)

lemma get_queue_cong: "queues m = queues m' \<Longrightarrow> get_queue m q = get_queue m' q"
  by (cases q) (simp_all add: get_queue_def)

lemma linked_cong:
  "nodes m = nodes m' \<Longrightarrow> queues m = queues m' \<Longrightarrow> linked m q ns = linked m' q ns"
  by (simp add: linked_def get_queue_cong[of m m'] split: sum.splits)

lemma unlink_entry_linked:
  assumes "linked m q (pre @ n # rest)"
  shows "\<exists>m1 en qu qu1.
           unlink_entry q (last_ptr pre) (Some (fst n)) m = Inr m1 \<and>
           linked (m1\<lparr>nodes := (nodes m1)(fst n := None)\<rparr>) q (pre @ rest) \<and>
           nodes m1 (fst n) = Some en \<and> data en = snd n \<and> nextp en = first_ptr rest \<and>
           world m1 = world m \<and> dom (nodes m1) = dom (nodes m) \<and>
           get_queue m q = Inr qu \<and> get_queue m1 q = Inr qu1 \<and>
           entries qu1 = entries qu \<and> ref_count qu1 = ref_count qu"
proof -
  from assms obtain qa qu where q: "q = Some qa" "queues m qa = Some qu"
    and p: "path (nodes m) (head qu) (pre @ n # rest) None"
    and t: "tail qu = last_ptr (pre @ n # rest)"
    by (auto simp: linked_def get_queue_Inr split: sum.splits)
  from p obtain en where pre: "path (nodes m) (head qu) pre (Some (fst n))"
    and en: "nodes m (fst n) = Some en" "data en = snd n"
    and r: "path (nodes m) (nextp en) rest None"
    by (auto simp: path_append split: option.splits)
  have d: "distinct (map fst (pre @ n # rest))" by (rule path_distinct[OF p])
  then have nr: "fst n \<notin> fst ` set rest" and np: "fst n \<notin> fst ` set pre" by auto
  have nx: "nextp en = first_ptr rest" by (rule path_first[OF r])
  have rest_iff: "nextp en = None \<longleftrightarrow> rest = []"
    using nx by (cases rest) auto
  show ?thesis
  proof (cases pre rule: rev_cases)
    case Nil
    with pre have h: "head qu = Some (fst n)" by simp
    have r': "path ((nodes m)(fst n := None)) (nextp en) rest None"
      using r nr by (simp add: path_upd_notin)
    show ?thesis
    proof (cases "rest = []")
      case True
      then show ?thesis
        using Nil q en r' t nx rest_iff
        by (simp add: unlink_entry_def linked_def)
    next
      case False
      then show ?thesis
        using Nil q en r' t nx rest_iff
        by (auto simp: unlink_entry_def linked_def)
    qed
  next
    case (snoc pre' k)
    with pre obtain ke where pre': "path (nodes m) (head qu) pre' (Some (fst k))"
      and ke: "nodes m (fst k) = Some ke" "data ke = snd k" "nextp ke = Some (fst n)"
      by (auto simp: path_append split: option.splits)
    from d snoc have kn: "fst k \<noteq> fst n" and kp: "fst k \<notin> fst ` set pre'"
      and kr: "fst k \<notin> fst ` set rest" and np': "fst n \<notin> fst ` set pre'"
      by auto
    let ?h = "(nodes m)(fst k \<mapsto> ke\<lparr>nextp := nextp en\<rparr>, fst n := None)"
    have p1: "path ?h (head qu) pre' (Some (fst k))"
      using pre' kp np' by (simp add: path_upd_notin)
    have p2: "path ?h (nextp en) rest None"
      using r kr nr by (simp add: path_upd_notin)
    have p3: "path ?h (head qu) (pre' @ k # rest) None"
      using p1 p2 kn ke by (auto simp: path_append)
    have kd: "insert (fst k) (dom (nodes m)) = dom (nodes m)"
      using ke by auto
    show ?thesis
    proof (cases "rest = []")
      case True
      then show ?thesis
        using snoc q en ke kn p3 t nx rest_iff kd
        by (simp add: unlink_entry_def linked_def)
    next
      case False
      then show ?thesis
        using snoc q en ke kn p3 t nx rest_iff kd
        by (auto simp: unlink_entry_def linked_def)
    qed
  qed
qed

subsection \<open>Removing the cells that match\<close>

lemma match_loop:
  assumes "linked m q (pre @ rest)"
  shows "\<exists>m1 qu qu1.
           queue_remove_all_match_loop q f u d (first_ptr rest) (last_ptr pre) c m =
             Some (Inr (c + of_nat (length (filter (\<lambda>n. f (snd n) u) rest)), m1)) \<and>
           linked m1 q (pre @ filter (\<lambda>n. \<not> f (snd n) u) rest) \<and>
           world m1 = destroy_each d (map snd (filter (\<lambda>n. f (snd n) u) rest)) (world m) \<and>
           dom (nodes m1) = dom (nodes m) - fst ` set (filter (\<lambda>n. f (snd n) u) rest) \<and>
           get_queue m q = Inr qu \<and> get_queue m1 q = Inr qu1 \<and>
           entries qu1 = entries qu \<and> ref_count qu1 = ref_count qu"
  using assms
proof (induction rest arbitrary: pre m c)
  case Nil
  then show ?case
    by (subst queue_remove_all_match_loop.simps)
       (auto simp: linked_def split: sum.splits)
next
  case (Cons n rest)
  from unlink_entry_linked[OF Cons.prems] obtain m1 en qu qu1 where
    u: "unlink_entry q (last_ptr pre) (Some (fst n)) m = Inr m1"
    and l1: "linked (m1\<lparr>nodes := (nodes m1)(fst n := None)\<rparr>) q (pre @ rest)"
    and en1: "nodes m1 (fst n) = Some en" "data en = snd n" "nextp en = first_ptr rest"
    and w1: "world m1 = world m" and d1: "dom (nodes m1) = dom (nodes m)"
    and q1: "get_queue m q = Inr qu" "get_queue m1 q = Inr qu1"
      "entries qu1 = entries qu" "ref_count qu1 = ref_count qu"
    by blast
  from Cons.prems obtain en0 where en0: "nodes m (fst n) = Some en0" "data en0 = snd n"
    "nextp en0 = first_ptr rest"
    by (auto simp: linked_def path_append dest: path_first split: sum.splits option.splits)
  show ?case
  proof (cases "f (snd n) u")
    case True
    let ?m2 = "(call_destroy d (snd n) m1)\<lparr>nodes := (nodes m1)(fst n := None)\<rparr>"
    have l2: "linked ?m2 q (pre @ rest)"
      using l1 by (simp add: linked_cong[of ?m2 "m1\<lparr>nodes := (nodes m1)(fst n := None)\<rparr>"])
    from Cons.IH[OF l2, of "c + 1"] obtain m3 qu2 qu3 where
      r: "queue_remove_all_match_loop q f u d (first_ptr rest) (last_ptr pre) (c + 1) ?m2 =
            Some (Inr (c + 1 + of_nat (length (filter (\<lambda>n. f (snd n) u) rest)), m3))"
      and l3: "linked m3 q (pre @ filter (\<lambda>n. \<not> f (snd n) u) rest)"
      and w3: "world m3 = destroy_each d (map snd (filter (\<lambda>n. f (snd n) u) rest)) (world ?m2)"
      and d3: "dom (nodes m3) = dom (nodes ?m2) - fst ` set (filter (\<lambda>n. f (snd n) u) rest)"
      and q3: "get_queue ?m2 q = Inr qu2" "get_queue m3 q = Inr qu3"
        "entries qu3 = entries qu2" "ref_count qu3 = ref_count qu2"
      by blast
    have q2: "qu2 = qu1" using q3(1) q1(2) by (simp add: get_queue_cong[of ?m2 m1])
    have step: "queue_remove_all_match_loop q f u d (first_ptr (n # rest)) (last_ptr pre) c m =
        queue_remove_all_match_loop q f u d (first_ptr rest) (last_ptr pre) (c + 1) ?m2"
      by (subst queue_remove_all_match_loop.simps)
         (simp add: en0 True u en1 free_node_def)
    show ?thesis
      unfolding step r
      using l3 w3 d3 q3 q1 q2 True w1 d1
      by (auto simp: destroy_each_Cons[of d "snd n" "map snd (filter (\<lambda>n. f (snd n) u) rest)"]
          add.assoc)
  next
    case False
    have l2: "linked m q ((pre @ [n]) @ rest)" using Cons.prems by simp
    from Cons.IH[OF l2, of c] obtain m3 qu2 qu3 where
      r: "queue_remove_all_match_loop q f u d (first_ptr rest) (last_ptr (pre @ [n])) c m =
            Some (Inr (c + of_nat (length (filter (\<lambda>n. f (snd n) u) rest)), m3))"
      and l3: "linked m3 q ((pre @ [n]) @ filter (\<lambda>n. \<not> f (snd n) u) rest)"
      and w3: "world m3 = destroy_each d (map snd (filter (\<lambda>n. f (snd n) u) rest)) (world m)"
      and d3: "dom (nodes m3) = dom (nodes m) - fst ` set (filter (\<lambda>n. f (snd n) u) rest)"
      and q3: "get_queue m q = Inr qu2" "get_queue m3 q = Inr qu3"
        "entries qu3 = entries qu2" "ref_count qu3 = ref_count qu2"
      by blast
    have step: "queue_remove_all_match_loop q f u d (first_ptr (n # rest)) (last_ptr pre) c m =
        queue_remove_all_match_loop q f u d (first_ptr rest) (last_ptr (pre @ [n])) c m"
      by (subst queue_remove_all_match_loop.simps)
         (simp add: en0 False)
    show ?thesis
      unfolding step r
      using l3 w3 d3 q3 False
      by auto
  qed
qed

subsection \<open>Pushing, popping, looking for a cell\<close>

lemma push_tail_linked:
  assumes "linked m q ns" "e \<notin> dom (nodes m)"
  shows "\<exists>m1 qu qu1.
           queue_push_tail q dat (Some e) m = Inr (True, m1) \<and>
           linked m1 q (ns @ [(e, dat)]) \<and>
           get_queue m q = Inr qu \<and> get_queue m1 q = Inr qu1 \<and>
           entries qu1 = entries qu + 1 \<and> ref_count qu1 = ref_count qu \<and>
           world m1 = world m \<and> dom (nodes m1) = insert e (dom (nodes m))"
proof -
  from assms obtain qa qu where q: "q = Some qa" "queues m qa = Some qu"
    and p: "path (nodes m) (head qu) ns None"
    and t: "tail qu = last_ptr ns"
    by (auto simp: linked_def get_queue_Inr split: sum.splits)
  have en: "e \<notin> fst ` set ns" using path_dom[OF p] assms(2) by auto
  show ?thesis
  proof (cases ns rule: rev_cases)
    case Nil
    then show ?thesis
      using q p t by (simp add: queue_push_tail_def linked_def Let_def)
  next
    case (snoc ns' k)
    with p obtain ke where p': "path (nodes m) (head qu) ns' (Some (fst k))"
      and ke: "nodes m (fst k) = Some ke" "data ke = snd k" "nextp ke = None"
      by (auto simp: path_append split: option.splits)
    have d: "distinct (map fst ns)" by (rule path_distinct[OF p])
    with snoc have kn: "fst k \<notin> fst ` set ns'" by auto
    from en snoc have ek: "e \<noteq> fst k" and en': "e \<notin> fst ` set ns'" by auto
    from p' snoc have hd: "head qu \<noteq> None" by (cases ns') auto
    let ?h = "(nodes m)(e \<mapsto> \<lparr>data = dat, nextp = None\<rparr>, fst k \<mapsto> ke\<lparr>nextp := Some e\<rparr>)"
    have p1: "path ?h (head qu) ns' (Some (fst k))"
      using p' kn en' by (simp add: path_upd_notin)
    have p2: "path ?h (head qu) (ns' @ [k, (e, dat)]) None"
      using p1 ke ek by (auto simp: path_append)
    have kd: "insert (fst k) (dom (nodes m)) = dom (nodes m)" using ke by auto
    show ?thesis
      using snoc q t ke p2 hd kd ek
      by (auto simp: queue_push_tail_def linked_def Let_def)
  qed
qed

lemma push_head_linked:
  assumes "linked m q ns" "e \<notin> dom (nodes m)"
  shows "\<exists>m1 qu qu1.
           queue_push_head q dat (Some e) m = Inr (True, m1) \<and>
           linked m1 q ((e, dat) # ns) \<and>
           get_queue m q = Inr qu \<and> get_queue m1 q = Inr qu1 \<and>
           entries qu1 = entries qu + 1 \<and> ref_count qu1 = ref_count qu \<and>
           world m1 = world m \<and> dom (nodes m1) = insert e (dom (nodes m))"
proof -
  from assms obtain qa qu where q: "q = Some qa" "queues m qa = Some qu"
    and p: "path (nodes m) (head qu) ns None"
    and t: "tail qu = last_ptr ns"
    by (auto simp: linked_def get_queue_Inr split: sum.splits)
  have en: "e \<notin> fst ` set ns" using path_dom[OF p] assms(2) by auto
  have p1: "path ((nodes m)(e \<mapsto> \<lparr>data = dat, nextp = head qu\<rparr>)) (head qu) ns None"
    using p en by (simp add: path_upd_notin)
  show ?thesis
  proof (cases "ns = []")
    case True
    then show ?thesis
      using q p t by (simp add: queue_push_head_def linked_def Let_def)
  next
    case False
    then have "tail qu \<noteq> None" using t by (simp add: last_ptr_def)
    then show ?thesis
      using False q t p1 by (auto simp: queue_push_head_def linked_def Let_def)
  qed
qed

lemma pop_head_linked:
  assumes "linked m q (n # ns)"
  shows "\<exists>m1 qu qu1.
           queue_pop_head q m = Inr (snd n, m1) \<and>
           linked m1 q ns \<and>
           get_queue m q = Inr qu \<and> get_queue m1 q = Inr qu1 \<and>
           entries qu1 = entries qu - 1 \<and> ref_count qu1 = ref_count qu \<and>
           world m1 = world m \<and> dom (nodes m1) = dom (nodes m) - {fst n}"
proof -
  from assms obtain qa qu en where q: "q = Some qa" "queues m qa = Some qu"
    and h: "head qu = Some (fst n)"
    and en: "nodes m (fst n) = Some en" "data en = snd n"
    and p: "path (nodes m) (nextp en) ns None"
    and t: "tail qu = last_ptr (n # ns)"
    by (auto simp: linked_def get_queue_Inr split: sum.splits option.splits)
  have nn: "fst n \<notin> fst ` set ns"
    using assms path_head_notin[of "nodes m" "head qu" n ns]
    by (auto simp: linked_def q split: sum.splits)
  have p1: "path ((nodes m)(fst n := None)) (nextp en) ns None"
    using p nn by (simp add: path_upd_notin)
  have nx: "nextp en = None \<longleftrightarrow> ns = []" using path_first[OF p] by (cases ns) auto
  show ?thesis
  proof (cases "ns = []")
    case True
    then show ?thesis
      using q h en p1 t nx by (simp add: queue_pop_head_def linked_def free_node_def)
  next
    case False
    then show ?thesis
      using q h en p1 t nx by (auto simp: queue_pop_head_def linked_def free_node_def)
  qed
qed

lemma pop_head_empty:
  assumes "linked m q []"
  shows "queue_pop_head q m = Inr (None, m)"
  using assms
  by (auto simp: linked_def queue_pop_head_def get_queue_Inr split: sum.splits)

lemma find_entry_loop:
  "path (nodes m) p ns None \<Longrightarrow>
   queue_find_entry_loop p x m = Some (Inr (x \<in> Some ` fst ` set ns))"
proof (induction ns arbitrary: p)
  case Nil
  then show ?case by (subst queue_find_entry_loop.simps) simp
next
  case (Cons n ns)
  then obtain en where en: "p = Some (fst n)" "nodes m (fst n) = Some en"
    "path (nodes m) (nextp en) ns None"
    by (auto split: option.splits)
  show ?case
    by (subst queue_find_entry_loop.simps) (auto simp: en Cons.IH[OF en(3)])
qed

lemma find_entry_linked:
  "linked m q ns \<Longrightarrow> queue_find_entry q x m = Some (Inr (x \<in> Some ` fst ` set ns))"
  by (auto simp: linked_def queue_find_entry_def find_entry_loop split: sum.splits)

subsection \<open>Removing one cell, searching\<close>

lemma remove_loop:
  assumes "linked m q (pre @ rest)"
  shows "(dat \<notin> snd ` set rest \<longrightarrow>
            queue_remove_loop q dat (first_ptr rest) (last_ptr pre) m = Some (Inr (False, m))) \<and>
         (dat \<in> snd ` set rest \<longrightarrow>
            (\<exists>m1 qu qu1.
               queue_remove_loop q dat (first_ptr rest) (last_ptr pre) m = Some (Inr (True, m1)) \<and>
               linked m1 q (pre @ del_first (\<lambda>n. snd n = dat) rest) \<and>
               get_queue m q = Inr qu \<and> get_queue m1 q = Inr qu1 \<and>
               entries qu1 = entries qu - 1 \<and> ref_count qu1 = ref_count qu \<and>
               world m1 = world m))"
  using assms
proof (induction rest arbitrary: pre)
  case Nil
  then show ?case by (subst queue_remove_loop.simps) simp
next
  case (Cons n rest)
  from Cons.prems obtain en0 where en0: "nodes m (fst n) = Some en0" "data en0 = snd n"
    "nextp en0 = first_ptr rest"
    by (auto simp: linked_def path_append dest: path_first split: sum.splits option.splits)
  show ?case
  proof (cases "snd n = dat")
    case True
    from unlink_entry_linked[OF Cons.prems] obtain m1 en qu qu1 where
      u: "unlink_entry q (last_ptr pre) (Some (fst n)) m = Inr m1"
      and l1: "linked (m1\<lparr>nodes := (nodes m1)(fst n := None)\<rparr>) q (pre @ rest)"
      and en1: "nodes m1 (fst n) = Some en"
      and w1: "world m1 = world m"
      and q1: "get_queue m q = Inr qu" "get_queue m1 q = Inr qu1"
        "entries qu1 = entries qu" "ref_count qu1 = ref_count qu"
      by blast
    from q1 obtain qa where qa: "q = Some qa" by (auto simp: get_queue_Inr)
    let ?m2 = "m1\<lparr>nodes := (nodes m1)(fst n := None)\<rparr>"
    let ?m3 = "put_queue ?m2 q (qu1\<lparr>entries := entries qu1 - 1\<rparr>)"
    have l3: "linked ?m3 q (pre @ rest)"
      using l1 q1 qa by (simp add: linked_def get_queue_Inr)
    have "queue_remove_loop q dat (first_ptr (n # rest)) (last_ptr pre) m = Some (Inr (True, ?m3))"
      using q1 qa
      by (subst queue_remove_loop.simps)
         (simp add: en0 True u[unfolded qa] en1 free_node_def dec_entries_def get_queue_Inr)
    then show ?thesis
      using True l3 q1 qa w1 by (simp add: get_queue_Inr)
  next
    case False
    have l2: "linked m q ((pre @ [n]) @ rest)" using Cons.prems by simp
    have step: "queue_remove_loop q dat (first_ptr (n # rest)) (last_ptr pre) m =
        queue_remove_loop q dat (first_ptr rest) (last_ptr (pre @ [n])) m"
      by (subst queue_remove_loop.simps) (simp add: en0 False)
    show ?thesis
      unfolding step using Cons.IH[OF l2] False by auto
  qed
qed

lemma remove_linked:
  assumes "linked m q ns" "dat \<noteq> None"
  shows "(dat \<notin> snd ` set ns \<longrightarrow> queue_remove q dat m = Some (Inr (False, m))) \<and>
         (dat \<in> snd ` set ns \<longrightarrow>
            (\<exists>m1 qu qu1.
               queue_remove q dat m = Some (Inr (True, m1)) \<and>
               linked m1 q (del_first (\<lambda>n. snd n = dat) ns) \<and>
               get_queue m q = Inr qu \<and> get_queue m1 q = Inr qu1 \<and>
               entries qu1 = entries qu - 1 \<and> ref_count qu1 = ref_count qu \<and>
               world m1 = world m))"
proof -
  from assms obtain qu where qu: "get_queue m q = Inr qu" "path (nodes m) (head qu) ns None"
    by (auto simp: linked_def split: sum.splits)
  then have qn: "q \<noteq> None" "head qu = first_ptr ns"
    by (auto simp: get_queue_Inr dest: path_first)
  have l: "linked m q ([] @ ns)" using assms by simp
  show ?thesis
    using remove_loop[OF l, of dat] qu qn assms(2)
    by (auto simp: queue_remove_def)
qed

lemma remove_if_loop:
  assumes "linked m q (pre @ rest)"
  shows "((\<forall>n \<in> set rest. \<not> f (snd n) u) \<longrightarrow>
            queue_remove_if_loop q f u (first_ptr rest) (last_ptr pre) m = Some (Inr (None, m))) \<and>
         ((\<exists>n \<in> set rest. f (snd n) u) \<longrightarrow>
            (\<exists>m1 qu qu1.
               queue_remove_if_loop q f u (first_ptr rest) (last_ptr pre) m =
                 Some (Inr (snd (hd (filter (\<lambda>n. f (snd n) u) rest)), m1)) \<and>
               linked m1 q (pre @ del_first (\<lambda>n. f (snd n) u) rest) \<and>
               get_queue m q = Inr qu \<and> get_queue m1 q = Inr qu1 \<and>
               entries qu1 = entries qu - 1 \<and> ref_count qu1 = ref_count qu \<and>
               world m1 = world m))"
  using assms
proof (induction rest arbitrary: pre)
  case Nil
  then show ?case by (subst queue_remove_if_loop.simps) simp
next
  case (Cons n rest)
  from Cons.prems obtain en0 where en0: "nodes m (fst n) = Some en0" "data en0 = snd n"
    "nextp en0 = first_ptr rest"
    by (auto simp: linked_def path_append dest: path_first split: sum.splits option.splits)
  show ?case
  proof (cases "f (snd n) u")
    case True
    from unlink_entry_linked[OF Cons.prems] obtain m1 en qu qu1 where
      u: "unlink_entry q (last_ptr pre) (Some (fst n)) m = Inr m1"
      and l1: "linked (m1\<lparr>nodes := (nodes m1)(fst n := None)\<rparr>) q (pre @ rest)"
      and en1: "nodes m1 (fst n) = Some en" "data en = snd n"
      and w1: "world m1 = world m"
      and q1: "get_queue m q = Inr qu" "get_queue m1 q = Inr qu1"
        "entries qu1 = entries qu" "ref_count qu1 = ref_count qu"
      by blast
    from q1 obtain qa where qa: "q = Some qa" by (auto simp: get_queue_Inr)
    let ?m2 = "m1\<lparr>nodes := (nodes m1)(fst n := None)\<rparr>"
    let ?m3 = "put_queue ?m2 q (qu1\<lparr>entries := entries qu1 - 1\<rparr>)"
    have l3: "linked ?m3 q (pre @ rest)"
      using l1 q1 qa by (simp add: linked_def get_queue_Inr)
    have "queue_remove_if_loop q f u (first_ptr (n # rest)) (last_ptr pre) m =
            Some (Inr (snd n, ?m3))"
      using q1 qa
      by (subst queue_remove_if_loop.simps)
         (simp add: en0 True u[unfolded qa] en1 free_node_def dec_entries_def get_queue_Inr)
    then show ?thesis
      using True l3 q1 qa w1 by (simp add: get_queue_Inr)
  next
    case False
    have l2: "linked m q ((pre @ [n]) @ rest)" using Cons.prems by simp
    have step: "queue_remove_if_loop q f u (first_ptr (n # rest)) (last_ptr pre) m =
        queue_remove_if_loop q f u (first_ptr rest) (last_ptr (pre @ [n])) m"
      by (subst queue_remove_if_loop.simps) (simp add: en0 False)
    show ?thesis
      unfolding step using Cons.IH[OF l2] False by auto
  qed
qed

lemma find_loop:
  "path (nodes m) p ns None \<Longrightarrow>
   queue_find_loop f u p m =
     Some (Inr (case filter (\<lambda>n. f (snd n) u) ns of [] \<Rightarrow> None | n # r \<Rightarrow> snd n))"
proof (induction ns arbitrary: p)
  case Nil
  then show ?case by (subst queue_find_loop.simps) simp
next
  case (Cons n ns)
  then obtain en where en: "p = Some (fst n)" "nodes m (fst n) = Some en" "data en = snd n"
    "path (nodes m) (nextp en) ns None"
    by (auto split: option.splits)
  show ?case
    by (subst queue_find_loop.simps) (auto simp: en Cons.IH[OF en(4)])
qed

subsection \<open>Iterating while the callback removes the current cell\<close>


lemma first_ptr_mem: "first_ptr rest \<in> Some ` fst ` set (xs @ rest) \<longleftrightarrow> rest \<noteq> []"
  by (cases rest) auto



lemma sint_succ32:
  assumes "0 < sint (w :: 32 word)" "sint w < 2147483647"
  shows "sint (w + 1) = sint w + 1"
proof -
  have "sint (w + 1) = signed_take_bit 31 (sint w + 1)"
    by (simp add: sint_word_add)
  also have "\<dots> = sint w + 1"
    using assms by (intro signed_take_bit_int_eq_self) simp_all
  finally show ?thesis .
qed

lemma linked_put_queue:
  "get_queue m q = Inr qu \<Longrightarrow> head qu1 = head qu \<Longrightarrow> tail qu1 = tail qu \<Longrightarrow>
   linked (put_queue m q qu1) q ns = linked m q ns"
  by (auto simp: linked_def get_queue_Inr)


subsection \<open>The two branches of bulk removal, on a queue that satisfies the invariant\<close>

lemma remove_all_clear_result:
  assumes "queue_inv m q ns"
  shows "case queue_remove_all q None user_data destroy m of
           Some (Inr (count, m1)) \<Rightarrow>
             unat count = length ns \<and>
             queue_inv m1 q [] \<and>
             queue_length q m1 = Inr 0 \<and>
             world m1 = destroy_each destroy (map snd ns) (world m) \<and>
             nodes m1 = nodes m |` (- fst ` set ns)
         | _ \<Rightarrow> False"
proof -
  from assms obtain qa qu where q: "q = Some qa" "queues m qa = Some qu"
    and p: "path (nodes m) (head qu) ns None" and len: "unat (entries qu) = length ns"
    by (auto simp: queue_inv_def linked_def get_queue_Inr split: sum.splits)
  have "(of_nat (length ns) :: 32 word) = entries qu"
    using len[symmetric] by simp
  then have "unat (of_nat (length ns) :: 32 word) = length ns" using len by simp
  then show ?thesis
    using q
    by (simp add: queue_remove_all_def clear_loop[OF p] queue_inv_def linked_def
        last_ptr_def queue_length_def)
qed

lemma remove_all_match_result:
  assumes "queue_inv m q ns"
  shows "case queue_remove_all q (Some f) user_data destroy m of
           Some (Inr (count, m1)) \<Rightarrow>
             unat count = length (filter (\<lambda>n. f (snd n) user_data) ns) \<and>
             queue_inv m1 q (filter (\<lambda>n. \<not> f (snd n) user_data) ns) \<and>
             world m1 =
               destroy_each destroy (map snd (filter (\<lambda>n. f (snd n) user_data) ns)) (world m) \<and>
             dom (nodes m1) = dom (nodes m) - fst ` set (filter (\<lambda>n. f (snd n) user_data) ns)
         | _ \<Rightarrow> False"
proof -
  let ?P = "\<lambda>n. f (snd n) user_data"
  from assms have l: "linked m q ([] @ ns)" by (simp add: queue_inv_def)
  from match_loop[OF l, of f user_data destroy 0] obtain m1 qu qu1 where
    r: "queue_remove_all_match_loop q f user_data destroy (first_ptr ns) None 0 m =
          Some (Inr (of_nat (length (filter ?P ns)), m1))"
    and l1: "linked m1 q (filter (\<lambda>n. \<not> ?P n) ns)"
    and w1: "world m1 = destroy_each destroy (map snd (filter ?P ns)) (world m)"
    and d1: "dom (nodes m1) = dom (nodes m) - fst ` set (filter ?P ns)"
    and q1: "get_queue m q = Inr qu" "get_queue m1 q = Inr qu1" "entries qu1 = entries qu"
    by auto
  from assms q1 have len: "unat (entries qu) = length ns"
    and h: "head qu = first_ptr ns"
    by (auto simp: queue_inv_def linked_def dest: path_first)
  from q1 obtain qa where qa: "q = Some qa" by (auto simp: get_queue_Inr)
  have le: "length (filter ?P ns) \<le> unat (entries qu)" using len by simp
  have c: "unat (of_nat (length (filter ?P ns)) :: 32 word) = length (filter ?P ns)"
    by (rule unat_of_nat_le32[OF le])
  have e: "unat (entries qu - of_nat (length (filter ?P ns))) = length (filter (\<lambda>n. \<not> ?P n) ns)"
    using unat_sub_of_nat32[OF le] len length_filter_split[of ns ?P] by simp
  have l2: "linked (put_queue m1 q (qu1\<lparr>entries := entries qu - of_nat (length (filter ?P ns))\<rparr>)) q
              (filter (\<lambda>n. \<not> ?P n) ns)"
    using l1 q1 qa by (simp add: linked_def get_queue_Inr)
  show ?thesis
    using q1 qa r c e l2 w1 d1 h
    by (simp add: queue_remove_all_def dec_entries_def queue_inv_def get_queue_Inr)
qed

subsection \<open>Each operation and the invariant\<close>

lemma unat_succ32: "unat (w :: 32 word) < 4294967295 \<Longrightarrow> unat (w + 1) = unat w + 1"
  by (simp add: unat_word_ariths)

lemma unat_pred32: "unat (w :: 32 word) = Suc k \<Longrightarrow> unat (w - 1) = k"
  using unat_sub_of_nat32[of 1 w] by simp

lemma length_del_first:
  "\<exists>x \<in> set xs. P x \<Longrightarrow> Suc (length (del_first P xs)) = length xs"
  by (induction xs) auto

lemma del_first_none: "\<forall>x \<in> set xs. \<not> P x \<Longrightarrow> del_first P xs = xs"
  by (induction xs) auto

lemma queue_inv_alt:
  "queue_inv m q ns \<longleftrightarrow>
     linked m q ns \<and> (\<exists>qu. get_queue m q = Inr qu \<and> unat (entries qu) = length ns)"
  by (auto simp: queue_inv_def split: sum.splits)

lemma queue_new_inv:
  "queue_new (Some a) m = Inr (Some a, put_queue m (Some a)
      \<lparr>ref_count = 1, head = None, tail = None, entries = 0\<rparr>) \<and>
   queue_inv (put_queue m (Some a) \<lparr>ref_count = 1, head = None, tail = None, entries = 0\<rparr>)
     (Some a) []"
  by (simp add: queue_new_def queue_ref_def queue_inv_def linked_def put_queue_def)

lemma push_head_inv:
  assumes "queue_inv m q ns" "e \<notin> dom (nodes m)" "length ns < 4294967295"
  shows "case queue_push_head q dat (Some e) m of
           Inr (ok, m1) \<Rightarrow> ok \<and> queue_inv m1 q ((e, dat) # ns)
         | Inl er \<Rightarrow> False"
proof -
  from assms(1) obtain qu where l: "linked m q ns" and qu: "get_queue m q = Inr qu"
    "unat (entries qu) = length ns"
    by (auto simp: queue_inv_alt)
  from push_head_linked[OF l assms(2), of dat] qu assms(3) show ?thesis
    by (auto simp: queue_inv_alt unat_succ32)
qed

lemma push_tail_inv:
  assumes "queue_inv m q ns" "e \<notin> dom (nodes m)" "length ns < 4294967295"
  shows "case queue_push_tail q dat (Some e) m of
           Inr (ok, m1) \<Rightarrow> ok \<and> queue_inv m1 q (ns @ [(e, dat)])
         | Inl er \<Rightarrow> False"
proof -
  from assms(1) obtain qu where l: "linked m q ns" and qu: "get_queue m q = Inr qu"
    "unat (entries qu) = length ns"
    by (auto simp: queue_inv_alt)
  from push_tail_linked[OF l assms(2), of dat] qu assms(3) show ?thesis
    by (auto simp: queue_inv_alt unat_succ32)
qed

lemma pop_head_inv:
  assumes "queue_inv m q ns"
  shows "case queue_pop_head q m of
           Inr (r, m1) \<Rightarrow> queue_inv m1 q (tl ns) \<and> r = (case ns of [] \<Rightarrow> None | n # ns' \<Rightarrow> snd n)
         | Inl er \<Rightarrow> False"
proof (cases ns)
  case Nil
  with assms show ?thesis
    using pop_head_empty[of m q] by (simp add: queue_inv_alt)
next
  case (Cons n ns')
  from assms obtain qu where l: "linked m q (n # ns')" and qu: "get_queue m q = Inr qu"
    "unat (entries qu) = Suc (length ns')"
    by (auto simp: queue_inv_alt Cons)
  from pop_head_linked[OF l] qu show ?thesis
    by (auto simp: queue_inv_alt Cons unat_pred32)
qed

lemma remove_inv:
  assumes "queue_inv m q ns"
  shows "case queue_remove q dat m of
           Some (Inr (r, m1)) \<Rightarrow>
             r = (dat \<noteq> None \<and> dat \<in> snd ` set ns) \<and>
             queue_inv m1 q (if dat = None then ns else del_first (\<lambda>n. snd n = dat) ns)
         | _ \<Rightarrow> False"
proof (cases "dat = None")
  case True
  with assms show ?thesis by (simp add: queue_remove_def)
next
  case False
  from assms obtain qu where l: "linked m q ns" and qu: "get_queue m q = Inr qu"
    "unat (entries qu) = length ns"
    by (auto simp: queue_inv_alt)
  show ?thesis
  proof (cases "dat \<in> snd ` set ns")
    case True
    then have "\<exists>x \<in> set ns. snd x = dat" by auto
    from length_del_first[OF this] have
      len: "length ns = Suc (length (del_first (\<lambda>n. snd n = dat) ns))" by simp
    from remove_linked[OF l False] True obtain m1 qu1 where
      r: "queue_remove q dat m = Some (Inr (True, m1))"
      "linked m1 q (del_first (\<lambda>n. snd n = dat) ns)"
      "get_queue m1 q = Inr qu1" "entries qu1 = entries qu - 1"
      using qu by auto
    have "unat (entries qu1) = length (del_first (\<lambda>n. snd n = dat) ns)"
      using r(4) qu len by (simp add: unat_pred32)
    with r True False show ?thesis
      by (auto simp: queue_inv_alt)
  next
    case nin: False
    then have "\<forall>x \<in> set ns. \<not> snd x = dat" by force
    from del_first_none[OF this] remove_linked[OF l False] nin assms \<open>dat \<noteq> None\<close>
    show ?thesis by auto
  qed
qed

lemma remove_if_inv:
  assumes "queue_inv m q ns"
  shows "case queue_remove_if q (Some f) u m of
           Some (Inr (r, m1)) \<Rightarrow>
             r = (case filter (\<lambda>n. f (snd n) u) ns of [] \<Rightarrow> None | n # ns' \<Rightarrow> snd n) \<and>
             queue_inv m1 q (del_first (\<lambda>n. f (snd n) u) ns)
         | _ \<Rightarrow> False"
proof -
  from assms obtain qu where l: "linked m q ns" and qu: "get_queue m q = Inr qu"
    "unat (entries qu) = length ns"
    by (auto simp: queue_inv_alt)
  from l qu have h: "q \<noteq> None" "head qu = first_ptr ns"
    by (auto simp: linked_def get_queue_Inr dest: path_first)
  have l': "linked m q ([] @ ns)" using l by simp
  show ?thesis
  proof (cases "\<exists>n \<in> set ns. f (snd n) u")
    case True
    from length_del_first[OF True] have
      len: "length ns = Suc (length (del_first (\<lambda>n. f (snd n) u) ns))" by simp
    from True have ne: "filter (\<lambda>n. f (snd n) u) ns \<noteq> []" by (simp add: filter_empty_conv)
    from remove_if_loop[OF l', of f u] True qu h len ne show ?thesis
      by (cases "filter (\<lambda>n. f (snd n) u) ns")
         (auto simp: queue_remove_if_def queue_inv_alt unat_pred32)
  next
    case False
    then have e: "filter (\<lambda>n. f (snd n) u) ns = []" by (simp add: filter_empty_conv)
    from False have "\<forall>x \<in> set ns. \<not> f (snd x) u" by simp
    from del_first_none[OF this] remove_if_loop[OF l', of f u] False qu h e assms show ?thesis
      by (auto simp: queue_remove_if_def)
  qed
qed

lemma find_inv:
  assumes "linked m q ns"
  shows "queue_find q (Some f) u m =
           Some (Inr (case filter (\<lambda>n. f (snd n) u) ns of [] \<Rightarrow> None | n # ns' \<Rightarrow> snd n))"
  using assms
  by (auto simp: linked_def queue_find_def get_queue_Inr find_loop split: sum.splits)

lemma peek_head_inv:
  assumes "linked m q ns"
  shows "queue_peek_head q m = Inr (case ns of [] \<Rightarrow> None | n # ns' \<Rightarrow> snd n)"
  using assms
  by (cases ns)
     (auto simp: linked_def queue_peek_head_def get_queue_Inr split: sum.splits option.splits)

lemma path_last:
  "path h p (ns @ [k]) None \<Longrightarrow> \<exists>en. h (fst k) = Some en \<and> data en = snd k"
  by (auto simp: path_append split: option.splits)

lemma peek_tail_inv:
  assumes "linked m q ns"
  shows "queue_peek_tail q m = Inr (if ns = [] then None else snd (last ns))"
proof (cases ns rule: rev_cases)
  case Nil
  with assms show ?thesis
    by (auto simp: linked_def queue_peek_tail_def get_queue_Inr split: sum.splits)
next
  case (snoc ns' k)
  with assms obtain qa qu where q: "q = Some qa" "queues m qa = Some qu"
    "path (nodes m) (head qu) (ns' @ [k]) None" "tail qu = Some (fst k)"
    by (auto simp: linked_def get_queue_Inr split: sum.splits)
  from path_last[OF q(3)] q snoc show ?thesis
    by (auto simp: queue_peek_tail_def)
qed

subsection \<open>Iterating while the callback destroys the queue\<close>

lemma destroy_loop_path:
  "path (nodes m) entry ns None \<Longrightarrow>
   queue_destroy_loop d entry m =
     Some (Inr (m\<lparr>nodes := nodes m |` (- fst ` set ns),
                  world := destroy_each d (map snd ns) (world m)\<rparr>))"
proof (induction ns arbitrary: entry m)
  case Nil
  then show ?case
    by (subst queue_destroy_loop.simps) (simp add: restrict_map_def)
next
  case (Cons n ns)
  then obtain en where en: "entry = Some (fst n)" "nodes m (fst n) = Some en"
    "data en = snd n" "path (nodes m) (nextp en) ns None"
    by (auto split: option.splits)
  have notin: "fst n \<notin> fst ` set ns" using path_head_notin[OF Cons.prems] .
  let ?m1 = "(call_destroy d (snd n) m)\<lparr>nodes := (nodes m)(fst n := None)\<rparr>"
  have p1: "path (nodes ?m1) (nextp en) ns None"
    using en notin by (simp add: path_upd_notin)
  have step: "queue_destroy_loop d entry m = queue_destroy_loop d (nextp en) ?m1"
    by (subst queue_destroy_loop.simps) (simp add: en free_node_live)
  have eq: "?m1\<lparr>nodes := nodes ?m1 |` (- fst ` set ns),
               world := destroy_each d (map snd ns) (world ?m1)\<rparr> =
            m\<lparr>nodes := nodes m |` (- fst ` set (n # ns)),
              world := destroy_each d (map snd (n # ns)) (world m)\<rparr>"
    by (rule mem.equality)
       (auto simp: restrict_map_def fun_eq_iff destroy_each_def call_destroy_def
          split: option.splits)
  show ?case
    unfolding step Cons.IH[OF p1] eq by (rule refl)
qed

text \<open>
  Destroying a queue that has another owner frees the cells and leaves the header
  allocated, with its head and tail still pointing at the freed cells.
\<close>

lemma queue_destroy_held:
  assumes "linked m q ns" "get_queue m q = Inr qu" "ref_count qu \<noteq> 1"
  shows "queue_destroy q d m =
     Some (Inr (put_queue (m\<lparr>nodes := nodes m |` (- fst ` set ns),
                             world := destroy_each d (map snd ns) (world m)\<rparr>) q
                  (qu\<lparr>ref_count := ref_count qu - 1\<rparr>)))"
proof -
  from assms obtain qa where q: "q = Some qa" "queues m qa = Some qu"
    and p: "path (nodes m) (head qu) ns None"
    by (auto simp: linked_def get_queue_Inr)
  show ?thesis
    using q assms(3)
    by (simp add: queue_destroy_def destroy_loop_path[OF p] queue_unref_def)
qed

lemma foreach_destroy_loop_faults:
  assumes "linked m q (kept @ rest)" "b \<in> snd ` set rest"
    "get_queue m q = Inr qu" "1 < sint (ref_count qu)"
  shows "queue_foreach_loop q (destroy_when q b) u (first_ptr rest) m = Some (Inl InvalidAccess)"
  using assms
proof (induction rest arbitrary: kept m qu)
  case Nil
  then show ?case by simp
next
  case (Cons n rest)
  from Cons.prems(1) obtain en0 where en0: "nodes m (fst n) = Some en0" "data en0 = snd n"
    "nextp en0 = first_ptr rest"
    by (auto simp: linked_def path_append dest: path_first split: sum.splits option.splits)
  let ?m0 = "m\<lparr>world := world m @ [snd n]\<rparr>"
  have l0: "linked ?m0 q ((kept @ [n]) @ rest)"
    using Cons.prems(1) by (simp add: linked_cong[of ?m0 m])
  have q0: "get_queue ?m0 q = Inr qu"
    using Cons.prems(3) by (simp add: get_queue_cong[of ?m0 m])
  show ?case
  proof (cases "snd n = b")
    case True
    let ?all = "(kept @ [n]) @ rest"
    from Cons.prems(3) obtain qa where qa: "q = Some qa" by (auto simp: get_queue_Inr)
    have rc: "ref_count qu \<noteq> 1" using Cons.prems(4) by auto
    define m1 where "m1 = put_queue (?m0\<lparr>nodes := nodes ?m0 |` (- fst ` set ?all),
                   world := destroy_each None (map snd ?all) (world ?m0)\<rparr>) q
                 (qu\<lparr>ref_count := ref_count qu - 1\<rparr>)"
    have d: "queue_destroy q None ?m0 = Some (Inr m1)"
      unfolding m1_def by (rule queue_destroy_held[OF l0 q0 rc])
    from l0 q0 have p: "path (nodes m) (head qu) ?all None"
      by (auto simp: linked_def)
    have dist: "distinct (map fst ?all)" by (rule path_distinct[OF p])
    obtain h0 where h0: "head qu = Some h0" "h0 \<in> fst ` set ?all"
      "h0 = fst (hd ?all)"
      using path_first[OF p] by (cases kept) auto
    have ne: "first_ptr rest \<noteq> Some h0"
    proof
      assume a: "first_ptr rest = Some h0"
      then obtain r rs where r: "rest = r # rs" "fst r = h0" by (cases rest) auto
      show False
      proof (cases kept)
        case Nil
        with h0(3) r dist show False by auto
      next
        case (Cons k ks)
        with h0(3) r dist show False by auto
      qed
    qed
    have freed: "nodes m1 h0 = None"
      unfolding m1_def using h0(2) by (auto simp: restrict_map_def)
    have ge: "get_queue m1 q = Inr (qu\<lparr>ref_count := ref_count qu - 1\<rparr>)"
      unfolding m1_def using qa by simp
    have f: "queue_find_entry q (first_ptr rest) m1 = Some (Inl InvalidAccess)"
      unfolding queue_find_entry_def ge
      by (subst queue_find_entry_loop.simps) (use h0(1) ne freed in \<open>auto simp: get_node_def\<close>)
    show ?thesis
      by (subst queue_foreach_loop.simps)
         (simp add: Cons.prems(3,4) en0 destroy_when_def True d[unfolded True] f)
  next
    case False
    with Cons.prems(2) have b: "b \<in> snd ` set rest" by auto
    then have rne: "rest \<noteq> []" by auto
    have f1: "queue_find_entry q (first_ptr rest) ?m0 = Some (Inr (rest \<noteq> []))"
      by (simp only: find_entry_linked[OF l0] first_ptr_mem)
    have step: "queue_foreach_loop q (destroy_when q b) u (first_ptr (n # rest)) m =
                queue_foreach_loop q (destroy_when q b) u (first_ptr rest) ?m0"
      by (subst queue_foreach_loop.simps)
         (auto simp: Cons.prems(3,4) en0 destroy_when_def False f1 rne)
    show ?thesis
      unfolding step by (rule Cons.IH[OF l0 b q0 Cons.prems(4)])
  qed
qed

lemma foreach_destroy_faults_always:
  assumes "linked m q ns" "ref_held m q" "b \<in> snd ` set ns"
  shows "queue_foreach q (Some (destroy_when q b)) u m = Some (Inl InvalidAccess)"
proof -
  from assms(1) obtain qa qu where q: "q = Some qa" "queues m qa = Some qu"
    and p: "path (nodes m) (head qu) ns None"
    by (auto simp: linked_def get_queue_Inr split: sum.splits)
  from assms(2) q have rc: "0 < sint (ref_count qu)" "sint (ref_count qu) < 2147483647"
    by (simp_all add: ref_held_def)
  have h: "head qu = first_ptr ns" by (rule path_first[OF p])
  from assms(3) have "ns \<noteq> []" by auto
  then have hn: "head qu \<noteq> None" using h by (cases ns) auto
  let ?qr = "qu\<lparr>ref_count := ref_count qu + 1\<rparr>"
  let ?mr = "put_queue m q ?qr"
  have gq: "get_queue m q = Inr qu" using q by simp
  have lr: "linked ?mr q ([] @ ns)"
    using assms(1) linked_put_queue[OF gq, of ?qr ns] by simp
  have gr: "get_queue ?mr q = Inr ?qr" using q by simp
  have rr: "1 < sint (ref_count ?qr)" using sint_succ32[OF rc] rc by simp
  from foreach_destroy_loop_faults[OF lr assms(3) gr rr, of u]
  show ?thesis
    using q hn h by (auto simp: queue_foreach_def queue_ref_def)
qed

subsection \<open>Sequences of operations from a new queue\<close>

lemma linked_has_cell: "linked m q ns \<Longrightarrow> has_cell m q \<longleftrightarrow> ns \<noteq> []"
  by (cases ns) (auto simp: linked_def has_cell_def split: sum.splits)

text \<open>One operation on a well-linked queue whose counter is the length modulo \<open>2 ^ 32\<close>.\<close>

lemma apply_op_linked:
  assumes "linked m q ns" "get_queue m q = Inr qu" "entries qu = of_nat (length ns)"
    and "case op_alloc x of None \<Rightarrow> True | Some e \<Rightarrow> nodes m e = None"
  shows "\<exists>pu po m1 qu1 ns1.
           apply_op q x m = Inr ((pu, po), m1) \<and> linked m1 q ns1 \<and>
           get_queue m1 q = Inr qu1 \<and> entries qu1 = of_nat (length ns1) \<and>
           length ns1 + po = length ns + pu"
proof (cases x)
  case (Push_head dat alloc)
  show ?thesis
  proof (cases alloc)
    case None
    with Push_head assms show ?thesis
      by (cases q) (auto simp: queue_push_head_def intro!: exI[of _ ns])
  next
    case (Some e)
    with Push_head assms(4) have "e \<notin> dom (nodes m)" by (simp add: domIff)
    from push_head_linked[OF assms(1) this, of dat] assms(2,3) Push_head Some show ?thesis
      by (auto intro!: exI[of _ "(e, dat) # ns"])
  qed
next
  case (Push_tail dat alloc)
  show ?thesis
  proof (cases alloc)
    case None
    with Push_tail assms show ?thesis
      by (cases q) (auto simp: queue_push_tail_def intro!: exI[of _ ns])
  next
    case (Some e)
    with Push_tail assms(4) have "e \<notin> dom (nodes m)" by (simp add: domIff)
    from push_tail_linked[OF assms(1) this, of dat] assms(2,3) Push_tail Some show ?thesis
      by (auto intro!: exI[of _ "ns @ [(e, dat)]"])
  qed
next
  case Pop_head
  show ?thesis
  proof (cases ns)
    case Nil
    with Pop_head assms pop_head_empty[of m q] linked_has_cell[OF assms(1)] show ?thesis
      by auto
  next
    case (Cons n ns')
    from pop_head_linked[OF assms(1)[unfolded Cons]] assms(2,3) Pop_head Cons
      linked_has_cell[OF assms(1)]
    show ?thesis
      by (auto intro!: exI[of _ ns'])
  qed
qed

lemma run_ops_linked:
  assumes "linked m q ns" "get_queue m q = Inr qu" "entries qu = of_nat (length ns)"
    and "allocs_fresh q xs m"
  shows "\<exists>pu po m1 qu1 ns1.
           run_ops q xs m = Inr ((pu, po), m1) \<and> linked m1 q ns1 \<and>
           get_queue m1 q = Inr qu1 \<and> entries qu1 = of_nat (length ns1) \<and>
           length ns1 + po = length ns + pu"
  using assms
proof (induction xs arbitrary: m ns qu)
  case Nil
  then show ?case by auto
next
  case (Cons x xs)
  from Cons.prems(4) have fr: "case op_alloc x of None \<Rightarrow> True | Some e \<Rightarrow> nodes m e = None"
    by simp
  from apply_op_linked[OF Cons.prems(1,2,3) fr] obtain pu po m1 qu1 ns1 where
    a: "apply_op q x m = Inr ((pu, po), m1)" "linked m1 q ns1"
    "get_queue m1 q = Inr qu1" "entries qu1 = of_nat (length ns1)"
    "length ns1 + po = length ns + pu"
    by blast
  from Cons.prems(4) a(1) have fr1: "allocs_fresh q xs m1" by simp
  from Cons.IH[OF a(2,3,4) fr1] obtain pu2 po2 m2 qu2 ns2 where
    b: "run_ops q xs m1 = Inr ((pu2, po2), m2)" "linked m2 q ns2"
    "get_queue m2 q = Inr qu2" "entries qu2 = of_nat (length ns2)"
    "length ns2 + po2 = length ns1 + pu2"
    by blast
  have "length ns2 + (po + po2) = length ns + (pu + pu2)" using a(5) b(5) by simp
  with a b show ?case by auto
qed

lemma queue_new_Some:
  "queue_new (Some a) m = Inr (r, m1) \<Longrightarrow>
   r = Some a \<and> linked m1 r [] \<and>
   (\<exists>qu. get_queue m1 r = Inr qu \<and> entries qu = 0)"
  using queue_new_inv[of a m] by (auto simp: queue_inv_alt)

lemma new_mem_eq: "queue_new (Some 0) empty_mem = Inr (Some 0, new_mem)"
  by (simp add: queue_new_def queue_ref_def put_queue_def empty_mem_def new_mem_def)

lemma pushes_run:
  assumes "linked m q ns" "get_queue m q = Inr qu" "entries qu = of_nat (length ns)"
    and "\<forall>a. i \<le> a \<longrightarrow> nodes m a = None"
  shows "allocs_fresh q (map push_null_at [i..<j]) m \<and>
         (\<exists>m1 qu1. run_ops q (map push_null_at [i..<j]) m = Inr ((j - i, 0), m1) \<and>
            get_queue m1 q = Inr qu1 \<and> entries qu1 = of_nat (length ns + (j - i)))"
  using assms
proof (induction "j - i" arbitrary: i m ns qu)
  case 0
  then show ?case by simp
next
  case (Suc k)
  then have i: "i < j" and k: "k = j - Suc i" by auto
  have fr: "i \<notin> dom (nodes m)" using Suc.prems(4) by (simp add: domIff)
  from push_tail_linked[OF Suc.prems(1) fr, of None] Suc.prems(2) obtain m1 qu1 where
    p: "queue_push_tail q None (Some i) m = Inr (True, m1)"
    "linked m1 q (ns @ [(i, None)])" "get_queue m1 q = Inr qu1"
    "entries qu1 = entries qu + 1" "dom (nodes m1) = insert i (dom (nodes m))"
    by auto
  have e1: "entries qu1 = of_nat (length (ns @ [(i, None)]))"
    using p(4) Suc.prems(3) by simp
  have fr1: "\<forall>a. Suc i \<le> a \<longrightarrow> nodes m1 a = None"
  proof (intro allI impI)
    fix a assume "Suc i \<le> a"
    then have "a \<notin> insert i (dom (nodes m))" using Suc.prems(4) by (auto simp: domIff)
    then show "nodes m1 a = None" using p(5) by (auto simp: domIff)
  qed
  from Suc.hyps(1)[OF k p(2,3) e1 fr1] obtain m2 qu2 where
    r: "allocs_fresh q (map push_null_at [Suc i..<j]) m1"
    "run_ops q (map push_null_at [Suc i..<j]) m1 = Inr ((j - Suc i, 0), m2)"
    "get_queue m2 q = Inr qu2" "entries qu2 = of_nat (length (ns @ [(i, None)]) + (j - Suc i))"
    by auto
  have s: "Suc (j - Suc i) = j - i" using i by simp
  have a: "apply_op q (push_null_at i) m = Inr ((1, 0), m1)"
    using p(1) by (simp add: push_null_at_def)
  have n: "nodes m i = None" using Suc.prems(4) by simp
  have fresh: "allocs_fresh q (map push_null_at [i..<j]) m"
    using i a r(1) n by (simp add: upt_conv_Cons) (simp add: push_null_at_def)
  have run: "run_ops q (map push_null_at [i..<j]) m = Inr ((j - i, 0), m2)"
    using i a r(2) s by (simp add: upt_conv_Cons)
  have "length (ns @ [(i, None)]) + (j - Suc i) = length ns + (j - i)" using i by simp
  with fresh run r(3,4) show ?case by auto
qed

lemma new_mem_linked:
  "linked new_mem (Some 0) []"
  "get_queue new_mem (Some 0) = Inr \<lparr>ref_count = 1, head = None, tail = None, entries = 0\<rparr>"
  by (simp_all add: linked_def new_mem_def)

subsection \<open>Bulk removal on a well-linked queue of any size\<close>

lemma pushes_run_linked:
  assumes "linked m q ns" and "\<forall>a. i \<le> a \<longrightarrow> nodes m a = None"
  shows "\<exists>m1. run_ops q (map push_null_at [i..<j]) m = Inr ((j - i, 0), m1) \<and>
           linked m1 q (ns @ map null_cell [i..<j])"
  using assms
proof (induction "j - i" arbitrary: i m ns)
  case 0
  then show ?case by simp
next
  case (Suc k)
  then have i: "i < j" and k: "k = j - Suc i" by auto
  have fr: "i \<notin> dom (nodes m)" using Suc.prems(2) by (simp add: domIff)
  from push_tail_linked[OF Suc.prems(1) fr, of None] obtain m1 where
    p: "queue_push_tail q None (Some i) m = Inr (True, m1)"
    "linked m1 q (ns @ [(i, None)])" "dom (nodes m1) = insert i (dom (nodes m))"
    by auto
  have fr1: "\<forall>a. Suc i \<le> a \<longrightarrow> nodes m1 a = None"
  proof (intro allI impI)
    fix a assume "Suc i \<le> a"
    then have "a \<notin> insert i (dom (nodes m))" using Suc.prems(2) by (auto simp: domIff)
    then show "nodes m1 a = None" using p(3) by (auto simp: domIff)
  qed
  from Suc.hyps(1)[OF k p(2) fr1] obtain m2 where
    r: "run_ops q (map push_null_at [Suc i..<j]) m1 = Inr ((j - Suc i, 0), m2)"
    "linked m2 q ((ns @ [(i, None)]) @ map null_cell [Suc i..<j])"
    by auto
  have s: "Suc (j - Suc i) = j - i" using i by simp
  have a: "apply_op q (push_null_at i) m = Inr ((1, 0), m1)"
    using p(1) by (simp add: push_null_at_def)
  have run: "run_ops q (map push_null_at [i..<j]) m = Inr ((j - i, 0), m2)"
    using i a r(1) s by (simp add: upt_conv_Cons)
  have "(ns @ [(i, None)]) @ map null_cell [Suc i..<j] = ns @ map null_cell [i..<j]"
    using i by (simp add: upt_conv_Cons null_cell_def)
  with run r(2) show ?case by auto
qed

lemma wrapped_mem_linked:
  "linked wrapped_mem (Some 0) (map null_cell [0..<4294967296])"
proof -
  have free: "\<forall>a. 0 \<le> a \<longrightarrow> nodes new_mem a = None" by (simp add: new_mem_def)
  from pushes_run_linked[OF new_mem_linked(1) free, of 4294967296] obtain m1 where
    "run_ops (Some 0) many_pushes new_mem = Inr ((4294967296, 0), m1)"
    "linked m1 (Some 0) (map null_cell [0..<4294967296])"
    by (auto simp: many_pushes_def)
  then show ?thesis by (simp add: wrapped_mem_def)
qed

lemma wrapped_mem_built:
  "queue_new (Some 0) empty_mem = Inr (Some 0, new_mem) \<and>
   allocs_fresh (Some 0) many_pushes new_mem \<and>
   \<not> isl (run_ops (Some 0) many_pushes new_mem)"
proof -
  have free: "\<forall>a. 0 \<le> a \<longrightarrow> nodes new_mem a = None" by (simp add: new_mem_def)
  have e: "entries \<lparr>ref_count = 1, head = None, tail = None, entries = 0\<rparr> =
      of_nat (length ([] :: (nat \<times> ptr) list))" by simp
  from pushes_run[OF new_mem_linked e free, of 4294967296] obtain m1 where
    "allocs_fresh (Some 0) many_pushes new_mem"
    "run_ops (Some 0) many_pushes new_mem = Inr ((4294967296, 0), m1)"
    by (auto simp: many_pushes_def)
  with new_mem_eq show ?thesis by simp
qed

lemma remove_all_clear_linked:
  assumes "linked m q ns"
  shows "case queue_remove_all q None user_data destroy m of
           Some (Inr (count, m1)) \<Rightarrow>
             count = of_nat (length ns) \<and>
             queue_inv m1 q [] \<and>
             queue_length q m1 = Inr 0 \<and>
             world m1 = destroy_each destroy (map snd ns) (world m) \<and>
             nodes m1 = nodes m |` (- fst ` set ns)
         | _ \<Rightarrow> False"
proof -
  from assms obtain qa qu where q: "q = Some qa" "queues m qa = Some qu"
    and p: "path (nodes m) (head qu) ns None"
    by (auto simp: linked_def get_queue_Inr split: sum.splits)
  show ?thesis
    using q
    by (simp add: queue_remove_all_def clear_loop[OF p] queue_inv_def linked_def
        last_ptr_def queue_length_def)
qed

lemma remove_all_match_linked:
  assumes "linked m q ns"
  shows "case queue_remove_all q (Some f) user_data destroy m of
           Some (Inr (count, m1)) \<Rightarrow>
             count = of_nat (length (filter (\<lambda>n. f (snd n) user_data) ns)) \<and>
             linked m1 q (filter (\<lambda>n. \<not> f (snd n) user_data) ns) \<and>
             queue_length q m1 = bindE (queue_length q m) (\<lambda>len. Inr (len - count)) \<and>
             world m1 =
               destroy_each destroy (map snd (filter (\<lambda>n. f (snd n) user_data) ns)) (world m) \<and>
             dom (nodes m1) = dom (nodes m) - fst ` set (filter (\<lambda>n. f (snd n) user_data) ns)
         | _ \<Rightarrow> False"
proof -
  let ?P = "\<lambda>n. f (snd n) user_data"
  from assms have l: "linked m q ([] @ ns)" by simp
  from match_loop[OF l, of f user_data destroy 0] obtain m1 qu qu1 where
    r: "queue_remove_all_match_loop q f user_data destroy (first_ptr ns) None 0 m =
          Some (Inr (of_nat (length (filter ?P ns)), m1))"
    and l1: "linked m1 q (filter (\<lambda>n. \<not> ?P n) ns)"
    and w1: "world m1 = destroy_each destroy (map snd (filter ?P ns)) (world m)"
    and d1: "dom (nodes m1) = dom (nodes m) - fst ` set (filter ?P ns)"
    and q1: "get_queue m q = Inr qu" "get_queue m1 q = Inr qu1" "entries qu1 = entries qu"
    by auto
  from assms q1 have h: "head qu = first_ptr ns"
    by (auto simp: linked_def dest: path_first)
  from q1 obtain qa where qa: "q = Some qa" by (auto simp: get_queue_Inr)
  have l2: "linked (put_queue m1 q (qu1\<lparr>entries := entries qu - of_nat (length (filter ?P ns))\<rparr>)) q
              (filter (\<lambda>n. \<not> ?P n) ns)"
    using l1 q1 qa by (simp add: linked_def get_queue_Inr)
  show ?thesis
    using q1 qa r l2 w1 d1 h
    by (simp add: queue_remove_all_def dec_entries_def queue_length_def get_queue_Inr)
qed

subsection \<open>Concrete queues\<close>

lemma chain_path:
  "i \<le> n \<Longrightarrow>
   path (chain_nodes n) (if i < n then Some i else None) (map null_cell [i..<n]) None"
proof (induction "n - i" arbitrary: i)
  case 0
  then show ?case by simp
next
  case (Suc k)
  then have i: "i < n" and k: "k = n - Suc i" and le: "Suc i \<le> n" by auto
  from Suc.hyps(1)[OF k le]
  have "path (chain_nodes n) (if Suc i < n then Some (Suc i) else None)
          (map null_cell [Suc i..<n]) None" .
  with i show ?case
    by (simp add: upt_conv_Cons chain_nodes_def null_cell_def)
qed

lemma big_mem_inv: "queue_inv big_mem (Some 0) (map null_cell [0..<4294967295])"
proof -
  have p: "path (chain_nodes 4294967295) (Some 0) (map null_cell [0..<4294967295]) None"
    using chain_path[of 0 4294967295] by simp
  have ne: "[0..<4294967295::nat] \<noteq> []" by simp
  have l: "last_ptr (map null_cell [0..<4294967295]) = Some 4294967294"
    using ne by (simp add: last_ptr_def last_map null_cell_def)
  show ?thesis
    using p l by (simp add: queue_inv_def linked_def big_mem_def)
qed

lemma queue_inv_empty_iff: "queue_inv m q ns \<Longrightarrow> empty_iff_no_ends m q"
  by (cases ns)
     (auto simp: queue_inv_def linked_def empty_iff_no_ends_def last_ptr_def unat_eq_0
        split: sum.splits)

lemma mem3_inv: "queue_inv mem3 (Some 1) [(10, Some 1), (11, Some 2), (12, Some 3)]"
  by (simp add: queue_inv_def linked_def mem3_def last_ptr_def)

lemma mem3_linked: "linked mem3 (Some 1) [(10, Some 1), (11, Some 2), (12, Some 3)]"
  using mem3_inv by (simp add: queue_inv_def)



lemma match_loop_all:
  assumes "\<forall>h. f h u" "path (nodes m) entry ns None" "queues m qa = Some qu"
  shows "queue_remove_all_match_loop (Some qa) f u d entry None c m =
     Some (Inr (c + of_nat (length ns),
       m\<lparr>nodes := nodes m |` (- fst ` set ns),
         queues := (queues m)(qa \<mapsto> (if ns = [] then qu else qu\<lparr>head := None, tail := None\<rparr>)),
         world := destroy_each d (map snd ns) (world m)\<rparr>))"
  using assms(2,3)
proof (induction ns arbitrary: entry c m qu)
  case Nil
  then have "(queues m)(qa \<mapsto> qu) = queues m" by auto
  with Nil show ?case
    by (subst queue_remove_all_match_loop.simps) (simp add: restrict_map_def)
next
  case (Cons n ns)
  then obtain en where en: "entry = Some (fst n)" "nodes m (fst n) = Some en"
    "data en = snd n" "path (nodes m) (nextp en) ns None"
    by (auto split: option.splits)
  have notin: "fst n \<notin> fst ` set ns" using path_head_notin[OF Cons.prems(1)] .
  have nx: "nextp en = None \<longleftrightarrow> ns = []" using path_first[OF en(4)] by (cases ns) auto
  let ?qu1 = "if ns = [] then qu\<lparr>head := None, tail := None\<rparr> else qu\<lparr>head := nextp en\<rparr>"
  let ?m1 = "m\<lparr>queues := (queues m)(qa \<mapsto> ?qu1)\<rparr>"
  let ?m2 = "(call_destroy d (snd n) ?m1)\<lparr>nodes := (nodes m)(fst n := None)\<rparr>"
  have u: "unlink_entry (Some qa) None (Some (fst n)) m = Inr ?m1"
    using en Cons.prems(2) nx by (cases "ns = []") (auto simp: unlink_entry_def put_queue_def)
  have p2: "path (nodes ?m2) (nextp en) ns None"
    using en notin by (simp add: path_upd_notin)
  have q2: "queues ?m2 qa = Some ?qu1" by simp
  have step: "queue_remove_all_match_loop (Some qa) f u d entry None c m =
        queue_remove_all_match_loop (Some qa) f u d (nextp en) None (c + 1) ?m2"
    by (subst queue_remove_all_match_loop.simps)
       (simp add: en assms(1) u free_node_def)
  have eq: "?m2\<lparr>nodes := nodes ?m2 |` (- fst ` set ns),
               queues := (queues ?m2)(qa \<mapsto>
                  (if ns = [] then ?qu1 else ?qu1\<lparr>head := None, tail := None\<rparr>)),
               world := destroy_each d (map snd ns) (world ?m2)\<rparr> =
            m\<lparr>nodes := nodes m |` (- fst ` set (n # ns)),
              queues := (queues m)(qa \<mapsto>
                  (if n # ns = [] then qu else qu\<lparr>head := None, tail := None\<rparr>)),
              world := destroy_each d (map snd (n # ns)) (world m)\<rparr>"
    by (rule mem.equality)
       (auto simp: restrict_map_def fun_eq_iff destroy_each_def call_destroy_def
          split: option.splits)
  have cnt: "c + 1 + of_nat (length ns) = c + of_nat (length (n # ns))"
    by (simp add: add.assoc)
  show ?case
    unfolding step Cons.IH[OF p2 q2] eq cnt
    by (rule refl)
qed

subsection \<open>Bulk removal without a predicate\<close>

text \<open>
  Claim C7.  As stated the claim fails: the returned \<open>count\<close> is an \<open>unsigned int\<close>.  On
  the queue of \<open>2 ^ 32\<close> cells that \<open>2 ^ 32\<close> successful pushes build from a new queue,
  \<open>queue_remove_all\<close> without a predicate returns 0.
\<close>

theorem remove_all_count_wraps:
  "queue_new (Some 0) empty_mem = Inr (Some 0, new_mem) \<and>
   allocs_fresh (Some 0) many_pushes new_mem \<and>
   \<not> isl (run_ops (Some 0) many_pushes new_mem) \<and>
   linked wrapped_mem (Some 0) (map null_cell [0..<4294967296]) \<and>
   length (map null_cell [0..<4294967296]) = 4294967296 \<and>
   map_option (map_sum id fst) (queue_remove_all (Some 0) None None None wrapped_mem) =
     Some (Inr 0)"
proof -
  have "map_option (map_sum id fst) (queue_remove_all (Some 0) None None None wrapped_mem) =
      Some (Inr 0)"
    using remove_all_clear_linked[OF wrapped_mem_linked, where user_data = None
        and destroy = None]
    by (auto split: option.splits sum.splits)
  with wrapped_mem_built wrapped_mem_linked show ?thesis by simp
qed

text \<open>
  Claim C7, amended.  On every well-linked queue, whose cells are \<open>ns\<close>,
  \<open>queue_remove_all\<close> without a predicate returns the number of cells modulo \<open>2 ^ 32\<close>
  (the number itself when there are fewer than \<open>2 ^ 32\<close>), leaves the queue with no
  cell (head and tail absent, length 0), frees every cell, and the caller's world is the
  one obtained by running the destructor once on each stored handle from head to tail.
\<close>

theorem remove_all_no_predicate:
  assumes "linked m q ns"
  shows "case queue_remove_all q None user_data destroy m of
           Some (Inr (count, m1)) \<Rightarrow>
             unat count = length ns mod 4294967296 \<and>
             queue_inv m1 q [] \<and>
             queue_length q m1 = Inr 0 \<and>
             world m1 = destroy_each destroy (map snd ns) (world m) \<and>
             nodes m1 = nodes m |` (- fst ` set ns)
         | _ \<Rightarrow> False"
  using remove_all_clear_linked[OF assms, where user_data = user_data and destroy = destroy]
  by (auto split: option.splits sum.splits simp: unat_of_nat)

theorem remove_all_no_predicate_witness:
  "linked mem3 (Some 1) [(10, Some 1), (11, Some 2), (12, Some 3)] \<and>
   (case queue_remove_all (Some 1) None None (Some log_handle) mem3 of
      Some (Inr (count, m1)) \<Rightarrow>
        unat count = 3 \<and> queue_inv m1 (Some 1) [] \<and> queue_length (Some 1) m1 = Inr 0 \<and>
        world m1 = [Some 1, Some 2, Some 3]
    | _ \<Rightarrow> False)"
proof -
  have w: "world mem3 = []" by (simp add: mem3_def)
  show ?thesis
    using mem3_linked remove_all_no_predicate[OF mem3_linked, where user_data = None
        and destroy = "Some log_handle"]
    by (simp add: w destroy_each_def log_handle_def
        split: option.splits sum.splits prod.splits)
qed

subsection \<open>Bulk removal with a predicate\<close>

text \<open>
  Claim C8.  As stated the claim fails: the returned \<open>count\<close> is an \<open>unsigned int\<close>.  On
  the queue of \<open>2 ^ 32\<close> cells built by pushes, \<open>queue_remove_all\<close> with a predicate that
  holds of every handle removes all of them and returns 0.
\<close>

theorem remove_all_match_count_wraps:
  "queue_new (Some 0) empty_mem = Inr (Some 0, new_mem) \<and>
   allocs_fresh (Some 0) many_pushes new_mem \<and>
   \<not> isl (run_ops (Some 0) many_pushes new_mem) \<and>
   linked wrapped_mem (Some 0) (map null_cell [0..<4294967296]) \<and>
   length (map null_cell [0..<4294967296]) = 4294967296 \<and>
   map_option (map_sum id fst)
     (queue_remove_all (Some 0) (Some any_handle) None None wrapped_mem) = Some (Inr 0) \<and>
   linked (snd (projr (the
     (queue_remove_all (Some 0) (Some any_handle) None None wrapped_mem)))) (Some 0) []"
proof -
  have "map_option (map_sum id fst)
     (queue_remove_all (Some 0) (Some any_handle) None None wrapped_mem) = Some (Inr 0) \<and>
   linked (snd (projr (the
     (queue_remove_all (Some 0) (Some any_handle) None None wrapped_mem)))) (Some 0) []"
    using remove_all_match_linked[OF wrapped_mem_linked, where f = any_handle
        and user_data = None and destroy = None]
    by (auto split: option.splits sum.splits simp: any_handle_def)
  with wrapped_mem_built wrapped_mem_linked show ?thesis by simp
qed

text \<open>
  Claim C8, amended.  On every well-linked queue, whose cells are \<open>ns\<close>,
  \<open>queue_remove_all\<close> with a predicate returns the number of cells whose handle
  satisfies it modulo \<open>2 ^ 32\<close> (the number itself when fewer than \<open>2 ^ 32\<close> cells
  match), frees exactly those cells, runs the destructor on their handles from head to
  tail, and leaves the queue holding the other cells in their former order; the length
  decreases by the returned count, and the invariant of the queue is kept when it held.
\<close>

theorem remove_all_predicate:
  assumes "linked m q ns"
  shows "case queue_remove_all q (Some f) user_data destroy m of
           Some (Inr (count, m1)) \<Rightarrow>
             unat count = length (filter (\<lambda>n. f (snd n) user_data) ns) mod 4294967296 \<and>
             linked m1 q (filter (\<lambda>n. \<not> f (snd n) user_data) ns) \<and>
             queue_length q m1 = bindE (queue_length q m) (\<lambda>len. Inr (len - count)) \<and>
             (queue_inv m q ns \<longrightarrow> queue_inv m1 q (filter (\<lambda>n. \<not> f (snd n) user_data) ns)) \<and>
             world m1 =
               destroy_each destroy (map snd (filter (\<lambda>n. f (snd n) user_data) ns)) (world m) \<and>
             dom (nodes m1) = dom (nodes m) - fst ` set (filter (\<lambda>n. f (snd n) user_data) ns)
         | _ \<Rightarrow> False"
proof -
  have inv: "queue_inv m q ns \<Longrightarrow>
      case queue_remove_all q (Some f) user_data destroy m of
        Some (Inr (count, m1)) \<Rightarrow> queue_inv m1 q (filter (\<lambda>n. \<not> f (snd n) user_data) ns)
      | _ \<Rightarrow> False"
  proof -
    assume a: "queue_inv m q ns"
    show ?thesis
      using remove_all_match_result[OF a, where f = f and user_data = user_data
          and destroy = destroy]
      by (auto split: option.splits sum.splits)
  qed
  show ?thesis
    using remove_all_match_linked[OF assms, where f = f and user_data = user_data
        and destroy = destroy] inv
    by (auto split: option.splits sum.splits simp: unat_of_nat)
qed

theorem remove_all_predicate_witness:
  "linked mem3 (Some 1) [(10, Some 1), (11, Some 2), (12, Some 3)] \<and>
   queue_inv mem3 (Some 1) [(10, Some 1), (11, Some 2), (12, Some 3)] \<and>
   (case queue_remove_all (Some 1) (Some even_handle) None (Some log_handle) mem3 of
      Some (Inr (count, m1)) \<Rightarrow>
        unat count = 1 \<and> queue_inv m1 (Some 1) [(10, Some 1), (12, Some 3)] \<and>
        world m1 = [Some 2] \<and> dom (nodes m1) = {10, 11, 12} - {11}
    | _ \<Rightarrow> False)"
proof -
  have w: "world mem3 = []" "dom (nodes mem3) = {10, 11, 12}"
    by (auto simp: mem3_def)
  show ?thesis
    using mem3_linked mem3_inv remove_all_predicate[OF mem3_linked, where f = even_handle
        and user_data = None and destroy = "Some log_handle"]
    by (simp add: w destroy_each_def log_handle_def even_handle_def
        split: option.splits sum.splits prod.splits)
qed

subsection \<open>The two branches of bulk removal\<close>

text \<open>
  Claim C10.  On a queue that satisfies the invariant, \<open>queue_remove_all\<close> with a predicate
  that holds of every handle returns, and returns the same count and the same memory
  (header, cells, and the caller's world, so the same destructor calls in the same order)
  as \<open>queue_remove_all\<close> without a predicate.
\<close>

theorem remove_all_true_predicate_eq_clear:
  assumes "queue_inv m q ns" and "\<forall>h. f h user_data"
  shows "case queue_remove_all q None user_data destroy m of
           Some (Inr r) \<Rightarrow> queue_remove_all q (Some f) user_data destroy m = Some (Inr r)
         | _ \<Rightarrow> False"
proof -
  from assms(1) obtain qa qu where q: "q = Some qa" "queues m qa = Some qu"
    and p: "path (nodes m) (head qu) ns None" and len: "unat (entries qu) = length ns"
    and t: "tail qu = last_ptr ns"
    by (auto simp: queue_inv_def linked_def get_queue_Inr split: sum.splits)
  have e: "entries qu - of_nat (length ns) = 0" using len[symmetric] by simp
  have ht: "ns = [] \<Longrightarrow> qu\<lparr>head := None, tail := None, entries := 0\<rparr> = qu\<lparr>entries := 0\<rparr>"
    using p t by (cases qu) simp
  show ?thesis
    using q e ht
    by (auto simp: queue_remove_all_def clear_loop[OF p]
        match_loop_all[where f = f and u = user_data, OF assms(2) p q(2)]
        dec_entries_def put_queue_def)
qed

theorem remove_all_true_predicate_eq_clear_witness:
  "queue_inv mem3 (Some 1) [(10, Some 1), (11, Some 2), (12, Some 3)] \<and>
   (\<forall>h. any_handle h None) \<and>
   (case queue_remove_all (Some 1) None None (Some log_handle) mem3 of
      Some (Inr r) \<Rightarrow>
        queue_remove_all (Some 1) (Some any_handle) None (Some log_handle) mem3 = Some (Inr r)
    | _ \<Rightarrow> False)"
proof -
  have a: "\<forall>h. any_handle h None" by (simp add: any_handle_def)
  show ?thesis
    using mem3_inv a remove_all_true_predicate_eq_clear[where f = any_handle
        and user_data = None and destroy = "Some log_handle", OF mem3_inv a]
    by simp
qed

subsection \<open>Removing the current entry during iteration\<close>



subsection \<open>Destroying the queue during iteration\<close>

text \<open>
  Claim C2.  On the queue A, B, C, D with one owner, \<open>queue_foreach\<close> with a callback
  that destroys the queue when it visits B does not stop cleanly: \<open>queue_destroy\<close> frees
  the four cells and leaves \<open>head\<close> pointing at the freed cell A, and the check
  \<open>queue_find_entry\<close> that follows the callback starts its walk at \<open>head\<close> and reads the
  \<open>next\<close> field of that freed cell, before the test of the reference count is reached.
\<close>

theorem foreach_destroy_faults:
  "queue_foreach (Some 1) (Some (destroy_when (Some 1) (Some 2))) None mem4 =
     Some (Inl InvalidAccess)"
  apply (simp add: queue_foreach_def mem4_def queue_ref_def put_queue_def)
  apply (subst queue_foreach_loop.simps)
  apply (simp add: destroy_when_def queue_find_entry_def)
  apply (subst queue_find_entry_loop.simps)
  apply simp
  apply (subst queue_find_entry_loop.simps)
  apply simp
  apply (subst queue_foreach_loop.simps)
  apply (simp add: destroy_when_def queue_destroy_def)
  apply (subst queue_destroy_loop.simps, simp add: free_node_def call_destroy_def)
  apply (subst queue_destroy_loop.simps, simp add: free_node_def call_destroy_def)
  apply (subst queue_destroy_loop.simps, simp add: free_node_def call_destroy_def)
  apply (subst queue_destroy_loop.simps, simp add: free_node_def call_destroy_def)
  apply (subst queue_destroy_loop.simps, simp add: free_node_def call_destroy_def)
  apply (simp add: queue_unref_def put_queue_def queue_find_entry_def)
  apply (subst queue_find_entry_loop.simps, simp)
  done

subsection \<open>Null handles\<close>

text \<open>
  Claim C9.  On a well-linked queue, \<open>queue_push_tail\<close> with the null handle and a
  successful allocation returns true and appends a cell holding the null handle; on the
  resulting queue, which holds a null handle, and on every other memory,
  \<open>queue_remove\<close> with the null handle returns false and changes nothing.
\<close>

theorem push_null_remove_null:
  assumes "linked m q ns" and "e \<notin> dom (nodes m)"
  shows "(case queue_push_tail q None (Some e) m of
            Inr (ok, m1) \<Rightarrow>
              ok \<and> linked m1 q (ns @ [(e, None)]) \<and>
              queue_remove q None m1 = Some (Inr (False, m1))
          | Inl er \<Rightarrow> False) \<and>
         queue_remove q None m2 = Some (Inr (False, m2))"
  using push_tail_linked[OF assms, of None]
  by (auto simp: queue_remove_def)

theorem push_null_remove_null_witness:
  "linked mem3 (Some 1) [(10, Some 1), (11, Some 2), (12, Some 3)] \<and>
   13 \<notin> dom (nodes mem3) \<and>
   (case queue_push_tail (Some 1) None (Some 13) mem3 of
      Inr (ok, m1) \<Rightarrow>
        ok \<and> linked m1 (Some 1) [(10, Some 1), (11, Some 2), (12, Some 3), (13, None)] \<and>
        queue_remove (Some 1) None m1 = Some (Inr (False, m1))
    | Inl er \<Rightarrow> False)"
proof -
  have f: "13 \<notin> dom (nodes mem3)" by (simp add: mem3_def)
  show ?thesis
    using mem3_linked f push_null_remove_null[OF mem3_linked f, of mem3]
    by (simp split: sum.splits prod.splits)
qed

subsection \<open>The invariant under every operation\<close>

text \<open>
  Claim C3.  As stated the claim fails: \<open>entries\<close> is an \<open>unsigned int\<close>, and a push on a
  queue of \<open>UINT_MAX\<close> cells wraps it to 0 while head and tail are present.
\<close>

theorem push_breaks_invariant_at_uint_max:
  "queue_inv big_mem (Some 0) (map null_cell [0..<4294967295]) \<and>
   4294967295 \<notin> dom (nodes big_mem) \<and>
   \<not> isl (queue_push_tail (Some 0) None (Some 4294967295) big_mem) \<and>
   fst (projr (queue_push_tail (Some 0) None (Some 4294967295) big_mem)) \<and>
   \<not> empty_iff_no_ends
       (snd (projr (queue_push_tail (Some 0) None (Some 4294967295) big_mem))) (Some 0)"
proof -
  have f: "4294967295 \<notin> dom (nodes big_mem)"
    by (simp add: big_mem_def chain_nodes_def dom_def)
  have t: "nodes big_mem 4294967294 = Some \<lparr>data = None, nextp = None\<rparr>"
    by (simp add: big_mem_def chain_nodes_def)
  have q: "queues big_mem 0 =
      Some \<lparr>ref_count = 1, head = Some 0, tail = Some 4294967294, entries = 4294967295\<rparr>"
    by (simp add: big_mem_def)
  have "case queue_push_tail (Some 0) None (Some 4294967295) big_mem of
      Inr (ok, m1) \<Rightarrow> ok \<and> \<not> empty_iff_no_ends m1 (Some 0)
    | Inl er \<Rightarrow> False"
    using t q by (simp add: queue_push_tail_def Let_def empty_iff_no_ends_def)
  with big_mem_inv f show ?thesis
    by (cases "queue_push_tail (Some 0) None (Some 4294967295) big_mem") auto
qed

text \<open>
  Claim C3, amended.  On a queue that satisfies the invariant (the walk from head visits
  the cells \<open>ns\<close> and ends at the tail, whose link is absent; \<open>entries\<close> is their number,
  so it is 0 exactly when head and tail are absent), every public operation returns
  without fault and leaves a queue that satisfies the invariant; for \<open>queue_push_head\<close>
  and \<open>queue_push_tail\<close> with a successful allocation this holds when the queue has
  fewer than \<open>UINT_MAX\<close> cells.  \<open>queue_new\<close> yields a queue that satisfies it.
\<close>

theorem operations_preserve_invariant:
  assumes "queue_inv m q ns"
  shows "(case queue_new (Some a) m0 of
            Inr (r, m1) \<Rightarrow> r = Some a \<and> queue_inv m1 r []
          | Inl er \<Rightarrow> False) \<and>
         (e \<notin> dom (nodes m) \<and> length ns < 4294967295 \<longrightarrow>
            (case queue_push_head q dat (Some e) m of
               Inr (ok, m1) \<Rightarrow> ok \<and> queue_inv m1 q ((e, dat) # ns)
             | Inl er \<Rightarrow> False) \<and>
            (case queue_push_tail q dat (Some e) m of
               Inr (ok, m1) \<Rightarrow> ok \<and> queue_inv m1 q (ns @ [(e, dat)])
             | Inl er \<Rightarrow> False)) \<and>
         queue_push_head q dat None m = Inr (False, m) \<and>
         queue_push_tail q dat None m = Inr (False, m) \<and>
         (case queue_pop_head q m of
            Inr (r, m1) \<Rightarrow> queue_inv m1 q (tl ns)
          | Inl er \<Rightarrow> False) \<and>
         (case queue_remove q dat m of
            Some (Inr (r, m1)) \<Rightarrow>
              queue_inv m1 q (if dat = None then ns else del_first (\<lambda>n. snd n = dat) ns)
          | _ \<Rightarrow> False) \<and>
         queue_remove_if q None u m = Some (Inr (None, m)) \<and>
         (case queue_remove_if q (Some f) u m of
            Some (Inr (r, m1)) \<Rightarrow> queue_inv m1 q (del_first (\<lambda>n. f (snd n) u) ns)
          | _ \<Rightarrow> False) \<and>
         (case queue_remove_all q None u destroy m of
            Some (Inr (count, m1)) \<Rightarrow> queue_inv m1 q []
          | _ \<Rightarrow> False) \<and>
         (case queue_remove_all q (Some f) u destroy m of
            Some (Inr (count, m1)) \<Rightarrow> queue_inv m1 q (filter (\<lambda>n. \<not> f (snd n) u) ns)
          | _ \<Rightarrow> False) \<and>
         queue_find q None u m = Some (Inr None) \<and>
         queue_find q (Some f) u m =
           Some (Inr (case filter (\<lambda>n. f (snd n) u) ns of [] \<Rightarrow> None | n # ns' \<Rightarrow> snd n)) \<and>
         queue_peek_head q m = Inr (case ns of [] \<Rightarrow> None | n # ns' \<Rightarrow> snd n) \<and>
         queue_peek_tail q m = Inr (if ns = [] then None else snd (last ns))"
proof -
  have l: "linked m q ns" using assms by (simp add: queue_inv_def)
  have c1: "case queue_new (Some a) m0 of
            Inr (r, m1) \<Rightarrow> r = Some a \<and> queue_inv m1 r []
          | Inl er \<Rightarrow> False"
    using queue_new_inv[of a m0] by simp
  have c2: "e \<notin> dom (nodes m) \<and> length ns < 4294967295 \<longrightarrow>
            (case queue_push_head q dat (Some e) m of
               Inr (ok, m1) \<Rightarrow> ok \<and> queue_inv m1 q ((e, dat) # ns)
             | Inl er \<Rightarrow> False) \<and>
            (case queue_push_tail q dat (Some e) m of
               Inr (ok, m1) \<Rightarrow> ok \<and> queue_inv m1 q (ns @ [(e, dat)])
             | Inl er \<Rightarrow> False)"
    using push_head_inv[OF assms, of e dat] push_tail_inv[OF assms, of e dat] by blast
  have c3: "queue_push_head q dat None m = Inr (False, m)"
    "queue_push_tail q dat None m = Inr (False, m)"
    by (simp_all add: queue_push_head_def queue_push_tail_def)
  have c4: "case queue_pop_head q m of
            Inr (r, m1) \<Rightarrow> queue_inv m1 q (tl ns)
          | Inl er \<Rightarrow> False"
    using pop_head_inv[OF assms] by (auto split: sum.splits)
  have c5: "case queue_remove q dat m of
            Some (Inr (r, m1)) \<Rightarrow>
              queue_inv m1 q (if dat = None then ns else del_first (\<lambda>n. snd n = dat) ns)
          | _ \<Rightarrow> False"
    using remove_inv[OF assms, of dat]
    by (cases "dat = None"; cases "queue_remove q dat m")
       (simp_all split: sum.splits prod.splits)
  have c6: "queue_remove_if q None u m = Some (Inr (None, m))"
    by (simp add: queue_remove_if_def)
  have c7: "case queue_remove_if q (Some f) u m of
            Some (Inr (r, m1)) \<Rightarrow> queue_inv m1 q (del_first (\<lambda>n. f (snd n) u) ns)
          | _ \<Rightarrow> False"
    using remove_if_inv[OF assms, of f u] by (auto split: option.splits sum.splits)
  have c8: "case queue_remove_all q None u destroy m of
            Some (Inr (count, m1)) \<Rightarrow> queue_inv m1 q []
          | _ \<Rightarrow> False"
    using remove_all_clear_result[OF assms, where user_data = u and destroy = destroy]
    by (auto split: option.splits sum.splits)
  have c9: "case queue_remove_all q (Some f) u destroy m of
            Some (Inr (count, m1)) \<Rightarrow> queue_inv m1 q (filter (\<lambda>n. \<not> f (snd n) u) ns)
          | _ \<Rightarrow> False"
    using remove_all_match_result[OF assms, where f = f and user_data = u and destroy = destroy]
    by (auto split: option.splits sum.splits)
  have c10: "queue_find q None u m = Some (Inr None)"
    by (simp add: queue_find_def)
  note c11 = find_inv[OF l, of f u] and c12 = peek_head_inv[OF l] and c13 = peek_tail_inv[OF l]
  show ?thesis
    using c1 c2 c3 c4 c5 c6 c7 c8 c9 c10 c11 c12 c13 by blast
qed

theorem operations_preserve_invariant_witness:
  "queue_inv mem3 (Some 1) [(10, Some 1), (11, Some 2), (12, Some 3)] \<and>
   13 \<notin> dom (nodes mem3) \<and>
   length [(10 :: nat, Some (1 :: nat)), (11, Some 2), (12, Some 3)] < 4294967295 \<and>
   (case queue_push_head (Some 1) (Some 4) (Some 13) mem3 of
      Inr (ok, m1) \<Rightarrow>
        ok \<and> queue_inv m1 (Some 1) [(13, Some 4), (10, Some 1), (11, Some 2), (12, Some 3)]
    | Inl er \<Rightarrow> False) \<and>
   (case queue_push_tail (Some 1) (Some 4) (Some 13) mem3 of
      Inr (ok, m1) \<Rightarrow>
        ok \<and> queue_inv m1 (Some 1) [(10, Some 1), (11, Some 2), (12, Some 3), (13, Some 4)]
    | Inl er \<Rightarrow> False) \<and>
   (case queue_pop_head (Some 1) mem3 of
      Inr (r, m1) \<Rightarrow> queue_inv m1 (Some 1) [(11, Some 2), (12, Some 3)]
    | Inl er \<Rightarrow> False) \<and>
   (case queue_remove (Some 1) (Some 2) mem3 of
      Some (Inr (r, m1)) \<Rightarrow> queue_inv m1 (Some 1) [(10, Some 1), (12, Some 3)]
    | _ \<Rightarrow> False)"
proof -
  have f: "13 \<notin> dom (nodes mem3)" by (simp add: mem3_def)
  have n: "length [(10 :: nat, Some (1 :: nat)), (11, Some 2), (12, Some 3)] < 4294967295"
    by simp
  show ?thesis
    using mem3_inv f n
      operations_preserve_invariant[OF mem3_inv, where e = 13 and dat = "Some 2"
        and a = 0 and ?m0.0 = mem3 and u = None and f = even_handle and destroy = None]
      operations_preserve_invariant[OF mem3_inv, where e = 13 and dat = "Some 4"
        and a = 0 and ?m0.0 = mem3 and u = None and f = even_handle and destroy = None]
    by (simp split: sum.splits option.splits prod.splits)
qed

subsection \<open>Length after pushes and pops\<close>

text \<open>
  Claim C4.  As stated the claim fails: \<open>entries\<close> is an \<open>unsigned int\<close>.  After
  \<open>2 ^ 32\<close> successful pushes on a new queue and no pop, \<open>queue_length\<close> returns 0 and
  \<open>queue_isempty\<close> returns true.
\<close>

theorem length_wraps_after_many_pushes:
  "queue_new (Some 0) empty_mem = Inr (Some 0, new_mem) \<and>
   allocs_fresh (Some 0) many_pushes new_mem \<and>
   \<not> isl (run_ops (Some 0) many_pushes new_mem) \<and>
   fst (projr (run_ops (Some 0) many_pushes new_mem)) = (4294967296, 0) \<and>
   queue_length (Some 0) (snd (projr (run_ops (Some 0) many_pushes new_mem))) = Inr 0 \<and>
   queue_isempty (Some 0) (snd (projr (run_ops (Some 0) many_pushes new_mem))) = Inr True"
proof -
  have free: "\<forall>a. 0 \<le> a \<longrightarrow> nodes new_mem a = None" by (simp add: new_mem_def)
  have e: "entries \<lparr>ref_count = 1, head = None, tail = None, entries = 0\<rparr> =
      of_nat (length ([] :: (nat \<times> ptr) list))" by simp
  from pushes_run[OF new_mem_linked e free, of 4294967296] obtain m1 qu1 where
    r: "allocs_fresh (Some 0) many_pushes new_mem"
    "run_ops (Some 0) many_pushes new_mem = Inr ((4294967296, 0), m1)"
    "get_queue m1 (Some 0) = Inr qu1" "entries qu1 = of_nat 4294967296"
    by (auto simp: many_pushes_def)
  have z: "entries qu1 = 0" using r(4) by simp
  show ?thesis
    using new_mem_eq r z by (simp add: queue_length_def queue_isempty_def)
qed

text \<open>
  Claim C4, amended.  After any sequence of \<open>queue_push_head\<close>, \<open>queue_push_tail\<close> and
  \<open>queue_pop_head\<close> on a new queue (the allocator handing out free addresses), with
  \<open>pushes\<close> the number of pushes that returned true and \<open>pops\<close> the number of pops of
  a queue that had a cell: \<open>queue_length\<close> is \<open>pushes - pops\<close> modulo \<open>2 ^ 32\<close>, and
  \<open>queue_isempty\<close> returns true exactly when \<open>queue_length\<close> returns 0.
\<close>

theorem length_is_pushes_minus_pops_mod:
  assumes "queue_new (Some a) m0 = Inr (q, m)" and "allocs_fresh q xs m"
  shows "case run_ops q xs m of
           Inr ((pushes, pops), m1) \<Rightarrow>
             pops \<le> pushes \<and>
             (case queue_length q m1 of
                Inr len \<Rightarrow>
                  unat len = (pushes - pops) mod 4294967296 \<and>
                  queue_isempty q m1 = Inr (len = 0)
              | Inl er \<Rightarrow> False)
         | Inl er \<Rightarrow> False"
proof -
  from queue_new_Some[OF assms(1)] obtain qu where
    n: "linked m q []" "get_queue m q = Inr qu" "entries qu = of_nat (length ([] :: (nat \<times> ptr) list))"
    by auto
  from run_ops_linked[OF n assms(2)] obtain pu po m1 qu1 and ns1 :: "(nat \<times> ptr) list" where
    r: "run_ops q xs m = Inr ((pu, po), m1)" "get_queue m1 q = Inr qu1"
    "entries qu1 = of_nat (length ns1)" "length ns1 + po = pu"
    by auto
  from r(2) obtain qa where qa: "q = Some qa" by (auto simp: get_queue_Inr)
  have len: "queue_length q m1 = Inr (entries qu1)"
    "queue_isempty q m1 = Inr (entries qu1 = 0)"
    using r(2) qa by (simp_all add: queue_length_def queue_isempty_def)
  have u: "unat (entries qu1) = length ns1 mod 4294967296"
    unfolding r(3) by (simp add: unat_of_nat)
  have run: "run_ops q xs m = Inr ((length ns1 + po, po), m1)"
    using r(1) r(4) by simp
  show ?thesis
    unfolding run using len u by simp
qed

theorem length_is_pushes_minus_pops_mod_witness:
  "queue_new (Some 0) empty_mem = Inr (Some 0, new_mem) \<and>
   allocs_fresh (Some 0) [Push_tail (Some 1) (Some 10), Push_head (Some 2) (Some 11), Pop_head]
     new_mem \<and>
   (case run_ops (Some 0) [Push_tail (Some 1) (Some 10), Push_head (Some 2) (Some 11), Pop_head]
           new_mem of
      Inr ((pushes, pops), m1) \<Rightarrow>
        pushes = 2 \<and> pops = 1 \<and>
        (case queue_length (Some 0) m1 of
           Inr len \<Rightarrow> unat len = 1 \<and> queue_isempty (Some 0) m1 = Inr (len = 0)
         | Inl er \<Rightarrow> False)
    | Inl er \<Rightarrow> False)"
proof -
  let ?xs = "[Push_tail (Some 1) (Some 10), Push_head (Some 2) (Some 11), Pop_head]"
  have f: "allocs_fresh (Some 0) ?xs new_mem"
    by (simp add: new_mem_def queue_push_tail_def queue_push_head_def queue_pop_head_def
        Let_def put_queue_def put_node_def get_queue_def get_node_def free_node_def)
  have "case run_ops (Some 0) ?xs new_mem of
      Inr ((pushes, pops), m1) \<Rightarrow> pushes = 2 \<and> pops = 1 | Inl er \<Rightarrow> False"
    by (simp add: new_mem_def queue_push_tail_def queue_push_head_def queue_pop_head_def
        Let_def put_queue_def put_node_def get_queue_def get_node_def free_node_def
        has_cell_def)
  then obtain m1 where r: "run_ops (Some 0) ?xs new_mem = Inr ((2, 1), m1)"
    by (auto split: sum.splits prod.splits)
  show ?thesis
    using new_mem_eq f length_is_pushes_minus_pops_mod[OF new_mem_eq f]
    unfolding r by (auto split: sum.splits)
qed

subsection \<open>Allocation failure\<close>

text \<open>
  Claim C5.  When the allocation of the node fails, \<open>queue_push_head\<close> and
  \<open>queue_push_tail\<close> return false and the memory (the header of the queue, every node,
  the caller's world) is exactly what it was before the call, whatever the queue pointer
  and the handle are.
\<close>

theorem push_alloc_failure_no_change:
  "queue_push_head q dat None m = Inr (False, m) \<and>
   queue_push_tail q dat None m = Inr (False, m)"
  by (simp add: queue_push_head_def queue_push_tail_def)

subsection \<open>Searching without a matcher\<close>

text \<open>
  Claim C6.  \<open>queue_find\<close> called without a matcher returns the absent result on every
  memory and every queue pointer, empty or not: the guard at the top returns before the
  assignment of \<open>direct_match\<close> can take effect, so no scan with \<open>direct_match\<close> happens.
\<close>

theorem queue_find_no_matcher:
  "queue_find q None match_data m = Some (Inr None)"
  by (simp add: queue_find_def)

text \<open>
  For contrast: on the queue 1, 2, 3 a scan with \<open>direct_match\<close> for the handle 2
  would find it.
\<close>

lemma direct_match_would_find:
  "queue_find_loop direct_match (Some 2) (Some 10) mem3 = Some (Inr (Some 2))"
  apply (subst queue_find_loop.simps, simp add: mem3_def direct_match_def)
  apply (subst queue_find_loop.simps, simp add: mem3_def direct_match_def)
  done

end
